theory Spec2Isabelle
  imports Complex_Main "HOL-Library.AList"
begin

section \<open>Python and numpy values\<close>

subsection \<open>Exceptions\<close>

text \<open>
  The exceptions that the interpreter and numpy raise in \<^verbatim>\<open>deep_network.py\<close>. The source
  defines no exception class of its own and has no \<^verbatim>\<open>raise\<close> statement. \<open>Unmodelled\<close> is not
  a Python exception: it marks a call of a numpy routine at an array rank that this
  development does not describe (\<^verbatim>\<open>np.dot\<close> and \<^verbatim>\<open>np.sum(axis=1)\<close> away from rank 2).
\<close>

datatype error = ValueError | ZeroDivisionError | KeyError | IndexError | TypeError
  | AxisError | Unmodelled

definition bindE :: "error + 'a \<Rightarrow> ('a \<Rightarrow> error + 'b) \<Rightarrow> error + 'b" where
  "bindE r f = (case r of Inl e \<Rightarrow> Inl e | Inr v \<Rightarrow> f v)"

primrec traverse :: "('a \<Rightarrow> error + 'b) \<Rightarrow> 'a list \<Rightarrow> error + 'b list" where
  "traverse f [] = Inr []"
| "traverse f (x # xs) =
     bindE (f x) (\<lambda>v. bindE (traverse f xs) (\<lambda>vs. Inr (v # vs)))"

subsection \<open>Floating-point values\<close>

text \<open>
  A float64 is a finite value, an infinity or NaN. Operations on the special values
  follow IEEE 754; operations on finite values are exact (no rounding, no overflow to
  infinity), and the sign of zero is not tracked.
\<close>

datatype npfloat = Fin real | PInf | NInf | NaN

fun fneg :: "npfloat \<Rightarrow> npfloat" where
  "fneg (Fin a) = Fin (- a)"
| "fneg PInf = NInf"
| "fneg NInf = PInf"
| "fneg NaN = NaN"

fun fadd :: "npfloat \<Rightarrow> npfloat \<Rightarrow> npfloat" where
  "fadd NaN y = NaN"
| "fadd x NaN = NaN"
| "fadd (Fin a) (Fin b) = Fin (a + b)"
| "fadd PInf NInf = NaN"
| "fadd NInf PInf = NaN"
| "fadd PInf y = PInf"
| "fadd x PInf = PInf"
| "fadd NInf y = NInf"
| "fadd x NInf = NInf"

definition fsub :: "npfloat \<Rightarrow> npfloat \<Rightarrow> npfloat" where
  "fsub x y = fadd x (fneg y)"

fun fmul :: "npfloat \<Rightarrow> npfloat \<Rightarrow> npfloat" where
  "fmul NaN y = NaN"
| "fmul x NaN = NaN"
| "fmul (Fin a) (Fin b) = Fin (a * b)"
| "fmul (Fin a) PInf = (if a = 0 then NaN else if 0 < a then PInf else NInf)"
| "fmul (Fin a) NInf = (if a = 0 then NaN else if 0 < a then NInf else PInf)"
| "fmul PInf (Fin b) = (if b = 0 then NaN else if 0 < b then PInf else NInf)"
| "fmul NInf (Fin b) = (if b = 0 then NaN else if 0 < b then NInf else PInf)"
| "fmul PInf PInf = PInf"
| "fmul PInf NInf = NInf"
| "fmul NInf PInf = NInf"
| "fmul NInf NInf = PInf"

fun fdiv :: "npfloat \<Rightarrow> npfloat \<Rightarrow> npfloat" where
  "fdiv NaN y = NaN"
| "fdiv x NaN = NaN"
| "fdiv (Fin a) (Fin b) =
     (if b = 0 then (if a = 0 then NaN else if 0 < a then PInf else NInf) else Fin (a / b))"
| "fdiv (Fin a) PInf = Fin 0"
| "fdiv (Fin a) NInf = Fin 0"
| "fdiv PInf (Fin b) = (if 0 \<le> b then PInf else NInf)"
| "fdiv NInf (Fin b) = (if 0 \<le> b then NInf else PInf)"
| "fdiv PInf y = NaN"
| "fdiv NInf y = NaN"

fun flog :: "npfloat \<Rightarrow> npfloat" where
  "flog (Fin a) = (if 0 < a then Fin (ln a) else if a = 0 then NInf else NaN)"
| "flog PInf = PInf"
| "flog NInf = NaN"
| "flog NaN = NaN"

primrec fsum :: "npfloat list \<Rightarrow> npfloat" where
  "fsum [] = Fin 0"
| "fsum (x # xs) = fadd x (fsum xs)"

text \<open>\<^verbatim>\<open>np.finfo(np.float64).max\<close>, the value \<^verbatim>\<open>np.nan_to_num\<close> puts in place of an infinity.\<close>

definition float_max :: real where
  "float_max = (2 ^ 53 - 1) * 2 ^ 971"

fun nan_to_num :: "npfloat \<Rightarrow> npfloat" where
  "nan_to_num NaN = Fin 0"
| "nan_to_num PInf = Fin float_max"
| "nan_to_num NInf = Fin (- float_max)"
| "nan_to_num (Fin a) = Fin a"

subsection \<open>Arrays\<close>

text \<open>
  A numpy array is its shape and its elements in row-major (C) order. It is well formed
  when the number of elements is the product of the shape.
\<close>

datatype 'a ndarray = NDArray (shape: "nat list") (items: "'a list")

type_synonym farray = "npfloat ndarray"

definition well_formed :: "'a ndarray \<Rightarrow> bool" where
  "well_formed A = (length (items A) = prod_list (shape A))"

text \<open>\<^verbatim>\<open>len(A)\<close>: the leading dimension; a 0-d array has no length.\<close>

definition len :: "'a ndarray \<Rightarrow> error + nat" where
  "len A = (case shape A of [] \<Rightarrow> Inl TypeError | d # ds \<Rightarrow> Inr d)"

text \<open>\<^verbatim>\<open>xs[i:j]\<close> on a list, for \<open>0 \<le> i\<close> and \<open>0 \<le> j\<close>: bounds past the end are clipped.\<close>

definition py_slice :: "'a list \<Rightarrow> nat \<Rightarrow> nat \<Rightarrow> 'a list" where
  "py_slice xs i j = take (j - i) (drop i xs)"

text \<open>\<^verbatim>\<open>A[i:j]\<close> on an array slices the leading axis; a 0-d array cannot be indexed.\<close>

definition nd_slice :: "'a ndarray \<Rightarrow> nat \<Rightarrow> nat \<Rightarrow> error + 'a ndarray" where
  "nd_slice A i j =
     (case shape A of
        [] \<Rightarrow> Inl IndexError
      | d # ds \<Rightarrow>
          Inr (NDArray ((min j d - min i d) # ds)
                 (py_slice (items A) (i * prod_list ds) (j * prod_list ds))))"

text \<open>\<^verbatim>\<open>range(0, m, step)\<close> for a positive step.\<close>

definition py_range :: "nat \<Rightarrow> nat \<Rightarrow> nat list" where
  "py_range m step = map (\<lambda>i. i * step) [0..<(m + step - 1) div step]"

subsection \<open>Array operations\<close>

text \<open>Elementwise application, and the operations of an array with a Python scalar.\<close>

definition nd_map :: "('a \<Rightarrow> 'b) \<Rightarrow> 'a ndarray \<Rightarrow> 'b ndarray" where
  "nd_map f A = NDArray (shape A) (map f (items A))"

text \<open>
  Broadcasting of a binary operation. The shorter shape is padded with 1s on the left;
  two dimensions are compatible when they are equal or one of them is 1, and numpy raises
  a \<^verbatim>\<open>ValueError\<close> otherwise.
\<close>

definition pad_shape :: "nat \<Rightarrow> nat list \<Rightarrow> nat list" where
  "pad_shape n s = replicate (n - length s) 1 @ s"

fun broadcast_shapes :: "nat list \<Rightarrow> nat list \<Rightarrow> nat list option" where
  "broadcast_shapes [] [] = Some []"
| "broadcast_shapes (a # s) (b # t) =
     (if a = b \<or> b = 1 then map_option ((#) a) (broadcast_shapes s t)
      else if a = 1 then map_option ((#) b) (broadcast_shapes s t)
      else None)"
| "broadcast_shapes s t = None"

definition chunks :: "nat \<Rightarrow> nat \<Rightarrow> 'a list \<Rightarrow> 'a list list" where
  "chunks d n xs = map (\<lambda>i. take n (drop (i * n) xs)) [0..<d]"

fun broadcast_items ::
  "('a \<Rightarrow> 'b \<Rightarrow> 'c) \<Rightarrow> nat list \<Rightarrow> nat list \<Rightarrow> 'a list \<Rightarrow> 'b list \<Rightarrow> 'c list" where
  "broadcast_items f (a # s) (b # t) xs ys =
     (if a = b then
        concat (map (\<lambda>(xc, yc). broadcast_items f s t xc yc)
                  (zip (chunks a (prod_list s) xs) (chunks b (prod_list t) ys)))
      else if b = 1 then
        concat (map (\<lambda>xc. broadcast_items f s t xc ys) (chunks a (prod_list s) xs))
      else
        concat (map (\<lambda>yc. broadcast_items f s t xs yc) (chunks b (prod_list t) ys)))"
| "broadcast_items f s t xs ys = map (\<lambda>(x, y). f x y) (zip xs ys)"

definition broadcast ::
  "('a \<Rightarrow> 'b \<Rightarrow> 'c) \<Rightarrow> 'a ndarray \<Rightarrow> 'b ndarray \<Rightarrow> error + 'c ndarray" where
  "broadcast f A B =
     (let n = max (length (shape A)) (length (shape B));
          s = pad_shape n (shape A);
          t = pad_shape n (shape B)
      in case broadcast_shapes s t of
           None \<Rightarrow> Inl ValueError
         | Some r \<Rightarrow> Inr (NDArray r (broadcast_items f s t (items A) (items B))))"

text \<open>\<^verbatim>\<open>A.T\<close> reverses the axes: the element at index \<open>(i\<^sub>1, ..., i\<^sub>n)\<close> of \<open>A\<close> is at \<open>(i\<^sub>n, ..., i\<^sub>1)\<close>.\<close>

fun unravel :: "nat list \<Rightarrow> nat \<Rightarrow> nat list" where
  "unravel [] p = []"
| "unravel (d # ds) p = (p div prod_list ds) # unravel ds (p mod prod_list ds)"

fun ravel :: "nat list \<Rightarrow> nat list \<Rightarrow> nat" where
  "ravel (d # ds) (i # ix) = i * prod_list ds + ravel ds ix"
| "ravel ds ix = 0"

definition nd_T :: "'a ndarray \<Rightarrow> 'a ndarray" where
  "nd_T A =
     NDArray (rev (shape A))
       (map (\<lambda>p. items A ! ravel (shape A) (rev (unravel (rev (shape A)) p)))
          [0..<prod_list (shape A)])"

text \<open>\<^verbatim>\<open>A.shape[k]\<close>.\<close>

definition shape_at :: "'a ndarray \<Rightarrow> nat \<Rightarrow> error + nat" where
  "shape_at A k = (if k < length (shape A) then Inr (shape A ! k) else Inl IndexError)"

text \<open>Matrices: element \<open>(i, j)\<close> of a 2-d array, and the 2-d array with given elements.\<close>

definition at2 :: "'a ndarray \<Rightarrow> nat \<Rightarrow> nat \<Rightarrow> 'a" where
  "at2 A i j = items A ! (i * (shape A ! 1) + j)"

definition mk2 :: "nat \<Rightarrow> nat \<Rightarrow> (nat \<Rightarrow> nat \<Rightarrow> 'a) \<Rightarrow> 'a ndarray" where
  "mk2 r c f = NDArray [r, c] (map (\<lambda>p. f (p div c) (p mod c)) [0..<r * c])"

text \<open>\<^verbatim>\<open>np.dot\<close> of two 2-d arrays is the matrix product.\<close>

definition dot :: "farray \<Rightarrow> farray \<Rightarrow> error + farray" where
  "dot A B =
     (case (shape A, shape B) of
        ([r, n], [n', c]) \<Rightarrow>
          if n = n' then
            Inr (mk2 r c (\<lambda>i j. fsum (map (\<lambda>k. fmul (at2 A i k) (at2 B k j)) [0..<n])))
          else Inl ValueError
      | _ \<Rightarrow> Inl Unmodelled)"

text \<open>\<^verbatim>\<open>np.sum(A, axis=1, keepdims=True)\<close>; an array of rank below 2 has no axis 1.\<close>

definition sum_axis1 :: "farray \<Rightarrow> error + farray" where
  "sum_axis1 A =
     (case shape A of
        [] \<Rightarrow> Inl AxisError
      | [r] \<Rightarrow> Inl AxisError
      | [r, c] \<Rightarrow> Inr (mk2 r 1 (\<lambda>i j. fsum (map (\<lambda>k. at2 A i k) [0..<c])))
      | _ \<Rightarrow> Inl Unmodelled)"

text \<open>
  \<^verbatim>\<open>np.argmax\<close> keeps the first maximum and treats NaN as maximal: the scan replaces the
  running maximum by an element when the element is not \<open>\<le>\<close> it, and stops at a NaN.
\<close>

fun fle :: "npfloat \<Rightarrow> npfloat \<Rightarrow> bool" where
  "fle NaN y = False"
| "fle x NaN = False"
| "fle NInf y = True"
| "fle x PInf = True"
| "fle (Fin a) (Fin b) = (a \<le> b)"
| "fle x y = False"

fun argmax_scan :: "npfloat \<Rightarrow> nat \<Rightarrow> nat \<Rightarrow> npfloat list \<Rightarrow> nat" where
  "argmax_scan mp mi i [] = mi"
| "argmax_scan mp mi i (x # xs) =
     (if mp = NaN then mi
      else if \<not> fle x mp then argmax_scan x i (Suc i) xs
      else argmax_scan mp mi (Suc i) xs)"

fun argmax_list :: "npfloat list \<Rightarrow> nat" where
  "argmax_list (x # xs) = argmax_scan x 0 1 xs"
| "argmax_list [] = 0"

text \<open>
  \<^verbatim>\<open>np.argmax(A, axis=1)\<close> on shape \<open>d\<^sub>0 # d\<^sub>1 # ds\<close> gives shape \<open>d\<^sub>0 # ds\<close>; it raises on an
  empty axis and on an array of rank below 2.
\<close>

definition argmax_axis1 :: "farray \<Rightarrow> error + nat ndarray" where
  "argmax_axis1 A =
     (case shape A of
        d0 # d1 # ds \<Rightarrow>
          if d1 = 0 then Inl ValueError
          else Inr (NDArray (d0 # ds)
                 (map (\<lambda>q. argmax_list
                          (map (\<lambda>j. items A !
                                  ((q div prod_list ds * d1 + j) * prod_list ds
                                    + q mod prod_list ds))
                             [0..<d1]))
                    [0..<d0 * prod_list ds]))
      | _ \<Rightarrow> Inl AxisError)"

text \<open>
  \<^verbatim>\<open>np.asarray\<close> of a list of arrays stacks them along a new leading axis; arrays of
  different shapes make it raise.
\<close>

definition asarray :: "'a ndarray list \<Rightarrow> error + 'a ndarray" where
  "asarray ys =
     (case ys of
        [] \<Rightarrow> Inr (NDArray [0] [])
      | y # rest \<Rightarrow>
          if list_all (\<lambda>z. shape z = shape y) ys
          then Inr (NDArray (length ys # shape y) (concat (map items ys)))
          else Inl ValueError)"

text \<open>\<^verbatim>\<open>A.reshape(s)\<close> keeps the elements in order and needs the same number of them.\<close>

definition reshape :: "'a ndarray \<Rightarrow> nat list \<Rightarrow> error + 'a ndarray" where
  "reshape A s =
     (if prod_list s = prod_list (shape A) then Inr (NDArray s (items A)) else Inl ValueError)"

text \<open>\<^verbatim>\<open>1/m\<close> for a Python int \<open>m\<close>.\<close>

definition py_recip :: "nat \<Rightarrow> error + npfloat" where
  "py_recip m = (if m = 0 then Inl ZeroDivisionError else Inr (Fin (1 / real m)))"

text \<open>
  \<^verbatim>\<open>np.zeros\<close> and \<^verbatim>\<open>np.random.randn\<close> raise on a negative dimension. The global random
  generator is the sequence \<open>samples\<close> of the normal deviates it will hand out and the
  position \<open>pos\<close> reached in it.
\<close>

definition np_zeros :: "int \<Rightarrow> int \<Rightarrow> error + farray" where
  "np_zeros d0 d1 =
     (if d0 < 0 \<or> d1 < 0 then Inl ValueError
      else Inr (NDArray [nat d0, nat d1] (replicate (nat d0 * nat d1) (Fin 0))))"

definition np_random_randn :: "(nat \<Rightarrow> real) \<Rightarrow> nat \<Rightarrow> int \<Rightarrow> int \<Rightarrow> error + (farray \<times> nat)" where
  "np_random_randn samples pos d0 d1 =
     (if d0 < 0 \<or> d1 < 0 then Inl ValueError
      else Inr (NDArray [nat d0, nat d1]
                  (map (\<lambda>i. Fin (samples (pos + i))) [0..<nat d0 * nat d1]),
                pos + nat d0 * nat d1))"

text \<open>A \<^verbatim>\<open>dict\<close> is an association list in insertion order; a missing key raises.\<close>

definition getitem :: "('k \<times> 'v) list \<Rightarrow> 'k \<Rightarrow> error + 'v" where
  "getitem d k = (case map_of d k of None \<Rightarrow> Inl KeyError | Some v \<Rightarrow> Inr v)"

section \<open>The network of \<^verbatim>\<open>deep_network.py\<close>\<close>

subsection \<open>Activations\<close>

text \<open>
  Modelled from the spec: the module \<^verbatim>\<open>activations\<close> that \<^verbatim>\<open>deep_network.py\<close> imports
  (\<^verbatim>\<open>relu\<close>, \<^verbatim>\<open>d_relu\<close>, \<^verbatim>\<open>sigmoid\<close>, \<^verbatim>\<open>d_sigmoid\<close>) is not among the sources. The
  specification describes its functions as pure, elementwise and shape preserving, so
  they are taken as a parameter: four functions on floats, applied to every element of
  an array. The network compares and stores references to these functions
  (\<^verbatim>\<open>activ_fn is relu\<close>); a reference is a tag.
\<close>

record activations =
  relu :: "npfloat \<Rightarrow> npfloat"
  d_relu :: "npfloat \<Rightarrow> npfloat"
  sigmoid :: "npfloat \<Rightarrow> npfloat"
  d_sigmoid :: "npfloat \<Rightarrow> npfloat"

datatype activ_ref = Relu | Sigmoid

datatype d_func_ref = D_relu | D_sigmoid

definition call_activ :: "activations \<Rightarrow> activ_ref \<Rightarrow> farray \<Rightarrow> farray" where
  "call_activ acts fn Z = (case fn of Relu \<Rightarrow> nd_map (relu acts) Z | Sigmoid \<Rightarrow> nd_map (sigmoid acts) Z)"

definition call_d_func :: "activations \<Rightarrow> d_func_ref \<Rightarrow> farray \<Rightarrow> farray" where
  "call_d_func acts fn Z =
     (case fn of D_relu \<Rightarrow> nd_map (d_relu acts) Z | D_sigmoid \<Rightarrow> nd_map (d_sigmoid acts) Z)"

text \<open>
  Modelled from the spec: the specification names only "a rectifying function" and "a
  saturating (sigmoid-like) function" with their derivatives in terms of the
  pre-activation. For evaluations at concrete inputs the usual formulae are taken:
  \<open>max(0, z)\<close> with derivative \<open>1\<close> for \<open>z > 0\<close> and \<open>0\<close> otherwise, and \<open>1 / (1 + exp(-z))\<close> with
  derivative \<open>s (1 - s)\<close>. The general theorems hold for every \<open>activations\<close>.
\<close>

fun usual_relu :: "npfloat \<Rightarrow> npfloat" where
  "usual_relu (Fin a) = Fin (max 0 a)"
| "usual_relu PInf = PInf"
| "usual_relu NInf = Fin 0"
| "usual_relu NaN = NaN"

fun usual_d_relu :: "npfloat \<Rightarrow> npfloat" where
  "usual_d_relu (Fin a) = Fin (if 0 < a then 1 else 0)"
| "usual_d_relu PInf = Fin 1"
| "usual_d_relu NInf = Fin 0"
| "usual_d_relu NaN = Fin 0"

fun usual_sigmoid :: "npfloat \<Rightarrow> npfloat" where
  "usual_sigmoid (Fin a) = Fin (1 / (1 + exp (- a)))"
| "usual_sigmoid PInf = Fin 1"
| "usual_sigmoid NInf = Fin 0"
| "usual_sigmoid NaN = NaN"

definition usual_d_sigmoid :: "npfloat \<Rightarrow> npfloat" where
  "usual_d_sigmoid z = fmul (usual_sigmoid z) (fsub (Fin 1) (usual_sigmoid z))"

definition usual_activations :: activations where
  "usual_activations =
     \<lparr>relu = usual_relu, d_relu = usual_d_relu,
      sigmoid = usual_sigmoid, d_sigmoid = usual_d_sigmoid\<rparr>"

subsection \<open>Construction\<close>

text \<open>
  The keys \<^verbatim>\<open>'W{}'.format(l)\<close> and \<^verbatim>\<open>'b{}'.format(l)\<close> of \<^verbatim>\<open>self.parameters\<close>, and the keys
  \<^verbatim>\<open>'dA{}'\<close>, \<^verbatim>\<open>'dW{}'\<close>, \<^verbatim>\<open>'db{}'\<close> of the gradients.
\<close>

datatype pkey = PW nat | Pb nat

datatype gkey = GdA nat | GdW nat | Gdb nat

type_synonym params = "(pkey \<times> farray) list"

type_synonym grads = "(gkey \<times> farray) list"

record DeepNet =
  parameters :: params
  L :: nat

text \<open>\<^verbatim>\<open>DeepNet.__init__\<close>: the loop over \<^verbatim>\<open>range(1, self.L)\<close>, then the constructor.\<close>

fun init_layers ::
  "(nat \<Rightarrow> real) \<Rightarrow> int list \<Rightarrow> nat list \<Rightarrow> params \<Rightarrow> nat \<Rightarrow> error + (params \<times> nat)" where
  "init_layers samples a [] ps pos = Inr (ps, pos)"
| "init_layers samples a (l # ls) ps pos =
     bindE (np_random_randn samples pos (a ! l) (a ! (l - 1))) (\<lambda>(R, pos').
     bindE (np_zeros (a ! l) 1) (\<lambda>z.
       init_layers samples a ls
         (AList.update (Pb l) z (AList.update (PW l) (nd_map (\<lambda>x. fmul x (Fin (1 / 100))) R) ps))
         pos'))"

definition DeepNet_init :: "(nat \<Rightarrow> real) \<Rightarrow> nat \<Rightarrow> int list \<Rightarrow> error + (DeepNet \<times> nat)" where
  "DeepNet_init samples pos architecture =
     bindE (init_layers samples architecture [1..<length architecture] [] pos) (\<lambda>(ps, pos').
       Inr (\<lparr>parameters = ps, L = length architecture\<rparr>, pos'))"

subsection \<open>Forward propagation\<close>

type_synonym cache = "farray \<times> farray \<times> farray \<times> farray \<times> d_func_ref"

definition activate ::
  "activations \<Rightarrow> farray \<Rightarrow> farray \<Rightarrow> farray \<Rightarrow> activ_ref \<Rightarrow> error + (farray \<times> cache)" where
  "activate acts A_prev W b activ_fn =
     bindE (dot W A_prev) (\<lambda>WA.
     bindE (broadcast fadd WA b) (\<lambda>Z.
       let A = call_activ acts activ_fn Z;
           d_func = (if activ_fn = Relu then D_relu else D_sigmoid)
       in Inr (A, (A_prev, W, b, Z, d_func))))"

text \<open>\<^verbatim>\<open>DeepNet.feedforward\<close>: the loop over \<^verbatim>\<open>range(1, L)\<close>, then the output layer.\<close>

fun feedforward_hidden ::
  "activations \<Rightarrow> params \<Rightarrow> nat list \<Rightarrow> farray \<Rightarrow> cache list \<Rightarrow> error + (farray \<times> cache list)" where
  "feedforward_hidden acts ps [] A caches = Inr (A, caches)"
| "feedforward_hidden acts ps (l # ls) A caches =
     bindE (getitem ps (PW l)) (\<lambda>W.
     bindE (getitem ps (Pb l)) (\<lambda>b.
     bindE (activate acts A W b Relu) (\<lambda>(A', cache).
       feedforward_hidden acts ps ls A' (caches @ [cache]))))"

definition feedforward :: "activations \<Rightarrow> DeepNet \<Rightarrow> farray \<Rightarrow> error + (farray \<times> cache list)" where
  "feedforward acts net A =
     (let nl = length (parameters net) div 2 in
      bindE (feedforward_hidden acts (parameters net) [1..<nl] A []) (\<lambda>(A', caches).
      bindE (getitem (parameters net) (PW nl)) (\<lambda>WL.
      bindE (getitem (parameters net) (Pb nl)) (\<lambda>bL.
      bindE (activate acts A' WL bL Sigmoid) (\<lambda>(AL, cache).
        Inr (AL, caches @ [cache]))))))"

subsection \<open>Backward propagation\<close>

text \<open>\<^verbatim>\<open>DeepNet.get_prevlayer_gradient\<close>. The argument \<^verbatim>\<open>activ_fn\<close> is not used by the body.\<close>

definition get_prevlayer_gradient ::
  "activations \<Rightarrow> farray \<Rightarrow> cache \<Rightarrow> activ_ref \<Rightarrow> error + (farray \<times> farray \<times> farray)" where
  "get_prevlayer_gradient acts dA cache activ_fn =
     (case cache of (A_prev, W, b, Z, d_func) \<Rightarrow>
        bindE (broadcast fmul dA (call_d_func acts d_func Z)) (\<lambda>dZ.
        bindE (shape_at A_prev 1) (\<lambda>m.
        bindE (py_recip m) (\<lambda>rm.
        bindE (dot dZ (nd_T A_prev)) (\<lambda>dZA.
        bindE (sum_axis1 dZ) (\<lambda>dZs.
        bindE (dot (nd_T W) dZ) (\<lambda>dA_prev.
          Inr (dA_prev, nd_map (fmul rm) dZA, nd_map (fmul rm) dZs))))))))"

text \<open>
  \<^verbatim>\<open>DeepNet.backpropagate\<close>: the loop over \<^verbatim>\<open>reversed(range(L-1))\<close>, which reads
  \<^verbatim>\<open>grads["dA{}".format(L)]\<close> in every round, then the method.
\<close>

fun backpropagate_hidden ::
  "activations \<Rightarrow> cache list \<Rightarrow> nat \<Rightarrow> nat list \<Rightarrow> grads \<Rightarrow> error + grads" where
  "backpropagate_hidden acts caches nL [] grads = Inr grads"
| "backpropagate_hidden acts caches nL (l # ls) grads =
     bindE (getitem grads (GdA nL)) (\<lambda>dA.
     bindE (get_prevlayer_gradient acts dA (caches ! l) Relu) (\<lambda>(dA_prev_temp, dW_temp, db_temp).
       backpropagate_hidden acts caches nL ls
         (AList.update (Gdb (l + 1)) db_temp
           (AList.update (GdW (l + 1)) dW_temp
             (AList.update (GdA (l + 1)) dA_prev_temp grads)))))"

definition backpropagate ::
  "activations \<Rightarrow> farray \<Rightarrow> farray \<Rightarrow> cache list \<Rightarrow> error + grads" where
  "backpropagate acts AL Y caches =
     (let nL = length caches in
      bindE (reshape Y (shape AL)) (\<lambda>Y.
      bindE (broadcast fdiv Y AL) (\<lambda>q1.
      bindE (broadcast fdiv (nd_map (fsub (Fin 1)) Y) (nd_map (fsub (Fin 1)) AL)) (\<lambda>q2.
      bindE (broadcast fsub q1 q2) (\<lambda>q.
        let dAL = nd_map fneg q in
        if caches = [] then Inl IndexError
        else
          bindE (get_prevlayer_gradient acts dAL (last caches) Sigmoid) (\<lambda>(dA, dW, db).
            backpropagate_hidden acts caches nL (rev [0..<nL - 1])
              [(GdA nL, dA), (GdW nL, dW), (Gdb nL, db)]))))))"

subsection \<open>Parameter update\<close>

text \<open>
  \<^verbatim>\<open>DeepNet.update_params\<close>: the loop over \<^verbatim>\<open>range(L)\<close>, then the method. A call that raises
  has no result here: the state of the object after an uncaught exception is not
  described.
\<close>

fun update_layers :: "params \<Rightarrow> grads \<Rightarrow> npfloat \<Rightarrow> nat list \<Rightarrow> error + params" where
  "update_layers ps grads eta [] = Inr ps"
| "update_layers ps grads eta (l # ls) =
     bindE (getitem ps (PW (l + 1))) (\<lambda>W.
     bindE (getitem grads (GdW (l + 1))) (\<lambda>dW.
     bindE (broadcast fsub W (nd_map (fmul eta) dW)) (\<lambda>W'.
     bindE (getitem (AList.update (PW (l + 1)) W' ps) (Pb (l + 1))) (\<lambda>b.
     bindE (getitem grads (Gdb (l + 1))) (\<lambda>db.
     bindE (broadcast fsub b (nd_map (fmul eta) db)) (\<lambda>b'.
       update_layers (AList.update (Pb (l + 1)) b' (AList.update (PW (l + 1)) W' ps))
         grads eta ls))))))"

definition update_params :: "DeepNet \<Rightarrow> grads \<Rightarrow> npfloat \<Rightarrow> error + DeepNet" where
  "update_params net grads eta =
     (let nl = length (parameters net) div 2 in
      bindE (update_layers (parameters net) grads eta [0..<nl]) (\<lambda>ps.
        Inr (net\<lparr>parameters := ps\<rparr>)))"

subsection \<open>Cost\<close>

text \<open>\<^verbatim>\<open>DeepNet.get_cost\<close>; \<^verbatim>\<open>np.squeeze\<close> of the scalar is the scalar.\<close>

definition get_cost :: "farray \<Rightarrow> farray \<Rightarrow> error + npfloat" where
  "get_cost YHat Y =
     bindE (len Y) (\<lambda>m.
     bindE (py_recip m) (\<lambda>rm.
     bindE (broadcast fmul Y (nd_map flog YHat)) (\<lambda>t1.
     bindE (broadcast fmul (nd_map (fsub (Fin 1)) Y)
              (nd_map flog (nd_map (fsub (Fin 1)) YHat))) (\<lambda>t2.
     bindE (broadcast fadd t1 t2) (\<lambda>t.
       Inr (fmul (fneg rm) (fsum (items (nd_map nan_to_num t)))))))))"

subsection \<open>Evaluation\<close>

text \<open>
  \<^verbatim>\<open>DeepNet.predict\<close> prints the accuracy; the printed number is the result here, next to
  the network object as the call leaves it.
\<close>

definition predict ::
  "activations \<Rightarrow> DeepNet \<Rightarrow> farray \<times> farray list \<Rightarrow> error + (npfloat \<times> DeepNet)" where
  "predict acts net data =
     (case data of (X, y) \<Rightarrow>
        bindE (asarray y) (\<lambda>ya.
        bindE (shape_at (nd_T X) 1) (\<lambda>m.
        bindE (feedforward acts net (nd_T X)) (\<lambda>(probs, caches).
        bindE (argmax_axis1 (nd_T probs)) (\<lambda>p.
        bindE (argmax_axis1 (nd_T ya)) (\<lambda>t.
        bindE (broadcast (=) p t) (\<lambda>hits.
          Inr (fsum (items (nd_map (\<lambda>h. fdiv (Fin (if h then 1 else 0)) (Fin (real m))) hits)),
               net))))))))"

section \<open>Mini-batches\<close>

text \<open>
  Lines 141-144 of \<^verbatim>\<open>DeepNet.SGD\<close>:
  \<^verbatim>\<open>[[X[k:k+mini_batch_size], y[k:k+mini_batch_size]] for k in range(0, m, mini_batch_size)]\<close>.
  \<open>X\<close> is an array (the loop body takes \<^verbatim>\<open>X_mini.T\<close>), \<open>y\<close> a list of label arrays as
  \<^verbatim>\<open>load_data_wrapper\<close> builds it. A step of 0 makes \<^verbatim>\<open>range\<close> raise, a negative step gives
  an empty range.
\<close>

definition mini_batches ::
  "'a ndarray \<Rightarrow> 'b list \<Rightarrow> nat \<Rightarrow> int \<Rightarrow> error + ('a ndarray \<times> 'b list) list" where
  "mini_batches X y m mini_batch_size =
     (if mini_batch_size = 0 then Inl ValueError
      else if mini_batch_size < 0 then Inr []
      else traverse
             (\<lambda>k. bindE (nd_slice X k (k + nat mini_batch_size))
                    (\<lambda>X_mini. Inr (X_mini, py_slice y k (k + nat mini_batch_size))))
             (py_range m (nat mini_batch_size)))"

section \<open>The trainer\<close>

text \<open>
  Modelled from the spec: \<^verbatim>\<open>sklearn.utils.shuffle\<close> is an external collaborator, "a shuffle
  capability with a fixed seed contract". It is a parameter \<open>shuffle g X y random_state\<close>:
  from the state \<open>g\<close> of the process's global random generator, the data and the seed it
  returns the shuffled pair and the generator state it leaves, or raises. What it does
  with \<open>g\<close> is its own business; the trainer has no other access to the generator.

  \<^verbatim>\<open>DeepNet.SGD\<close>: the loop over the mini-batches of an epoch, the loop over the epochs
  (counted down), then the method. The result is the network, the recorded costs and the
  generator state; the plot of \<^verbatim>\<open>save_costs\<close> is not part of it.
\<close>

type_synonym 'g shuffle_fn =
  "'g \<Rightarrow> farray \<Rightarrow> farray list \<Rightarrow> int \<Rightarrow> error + ((farray \<times> farray list) \<times> 'g)"

fun sgd_batches ::
  "activations \<Rightarrow> npfloat \<Rightarrow> DeepNet \<Rightarrow> npfloat list \<Rightarrow> (nat \<times> farray \<times> farray list) list
   \<Rightarrow> error + (DeepNet \<times> npfloat list)" where
  "sgd_batches acts eta net costs [] = Inr (net, costs)"
| "sgd_batches acts eta net costs ((batch_num, X_mini, y_mini) # rest) =
     bindE (asarray y_mini) (\<lambda>ya.
     bindE (feedforward acts net (nd_T X_mini)) (\<lambda>(AL, caches).
     bindE (get_cost AL (nd_T ya)) (\<lambda>cost.
     bindE (backpropagate acts AL (nd_T ya) caches) (\<lambda>grads.
     bindE (update_params net grads eta) (\<lambda>net'.
       sgd_batches acts eta net'
         (if batch_num mod 100 = 0 then costs @ [cost] else costs) rest)))))"

fun sgd_epochs ::
  "activations \<Rightarrow> 'g shuffle_fn \<Rightarrow> nat \<Rightarrow> int \<Rightarrow> npfloat \<Rightarrow> (farray \<times> farray list) option
   \<Rightarrow> nat \<Rightarrow> 'g \<Rightarrow> farray \<Rightarrow> farray list \<Rightarrow> DeepNet \<Rightarrow> npfloat list
   \<Rightarrow> error + (DeepNet \<times> npfloat list \<times> 'g)" where
  "sgd_epochs acts shuffle m mini_batch_size eta test_data 0 g X y net costs =
     Inr (net, costs, g)"
| "sgd_epochs acts shuffle m mini_batch_size eta test_data (Suc epochs) g X y net costs =
     bindE (shuffle g X y 0) (\<lambda>((X', y'), g').
     bindE (mini_batches X' y' m mini_batch_size) (\<lambda>batches.
     bindE (sgd_batches acts eta net costs (zip [0..<length batches] batches)) (\<lambda>(net', costs').
     bindE (case test_data of
              None \<Rightarrow> Inr net'
            | Some d \<Rightarrow> bindE (predict acts net' d) (\<lambda>(acc, net''). Inr net'')) (\<lambda>net''.
       sgd_epochs acts shuffle m mini_batch_size eta test_data epochs g' X' y' net'' costs'))))"

definition SGD ::
  "activations \<Rightarrow> 'g shuffle_fn \<Rightarrow> 'g \<Rightarrow> DeepNet \<Rightarrow> farray \<times> farray list \<Rightarrow> int \<Rightarrow> int
   \<Rightarrow> npfloat \<Rightarrow> (farray \<times> farray list) option \<Rightarrow> error + (DeepNet \<times> npfloat list \<times> 'g)" where
  "SGD acts shuffle g net training_data num_epochs mini_batch_size eta test_data =
     (case training_data of (X, y) \<Rightarrow>
        bindE (len X) (\<lambda>m.
          sgd_epochs acts shuffle m mini_batch_size eta test_data (nat num_epochs) g X y net []))"

text \<open>What a caller sees of a run of \<^verbatim>\<open>SGD\<close>: the exception, or the network and the costs.\<close>

definition outcome :: "error + (DeepNet \<times> npfloat list \<times> 'g) \<Rightarrow> error + (DeepNet \<times> npfloat list)" where
  "outcome r = (case r of Inl e \<Rightarrow> Inl e | Inr (net, costs, g) \<Rightarrow> Inr (net, costs))"

section \<open>The shape invariant\<close>

text \<open>
  The parameters match the unit counts \<open>units\<close> (input dimension first) when there are
  two entries per layer and, for every layer \<open>l\<close>, \<^verbatim>\<open>W{l}\<close> is a well-formed array of shape
  \<open>(units[l], units[l-1])\<close> and \<^verbatim>\<open>b{l}\<close> one of shape \<open>(units[l], 1)\<close>. Gradients match when
  \<^verbatim>\<open>dW{l}\<close> and \<^verbatim>\<open>db{l}\<close> have these shapes.
\<close>

definition layer_shapes_ok :: "nat list \<Rightarrow> ('k \<times> 'a ndarray) list \<Rightarrow> 'k \<Rightarrow> 'k \<Rightarrow> nat \<Rightarrow> bool" where
  "layer_shapes_ok units d kW kb l =
     (case (map_of d kW, map_of d kb) of
        (Some W, Some b) \<Rightarrow>
          shape W = [units ! l, units ! (l - 1)] \<and> well_formed W \<and>
          shape b = [units ! l, 1] \<and> well_formed b
      | _ \<Rightarrow> False)"

definition shapes_match :: "nat list \<Rightarrow> params \<Rightarrow> bool" where
  "shapes_match units ps =
     (length ps = 2 * (length units - 1) \<and>
      list_all (\<lambda>l. layer_shapes_ok units ps (PW l) (Pb l) l) [1..<length units])"

definition grads_match :: "nat list \<Rightarrow> grads \<Rightarrow> bool" where
  "grads_match units gs =
     list_all (\<lambda>l. layer_shapes_ok units gs (GdW l) (Gdb l) l) [1..<length units]"

text \<open>A sequence of \<^verbatim>\<open>update_params\<close> calls on one network object.\<close>

fun update_sequence :: "DeepNet \<Rightarrow> (grads \<times> npfloat) list \<Rightarrow> error + DeepNet" where
  "update_sequence net [] = Inr net"
| "update_sequence net ((grads, eta) # rest) =
     bindE (update_params net grads eta) (\<lambda>net'. update_sequence net' rest)"

text \<open>
  The term of the binary cross-entropy for a label \<open>y\<close> and a prediction \<open>p\<close>, in the words of
  the specification: \<open>y log p + (1 - y) log (1 - p)\<close>.
\<close>

definition bce_term :: "npfloat \<Rightarrow> npfloat \<Rightarrow> npfloat" where
  "bce_term y p = fadd (fmul y (flog p)) (fmul (fsub (Fin 1) y) (flog (fsub (Fin 1) p)))"

section \<open>The forward trace\<close>

text \<open>The components of a cache \<^verbatim>\<open>(A_prev, W, b, Z, d_func)\<close>.\<close>

definition cache_A_prev :: "cache \<Rightarrow> farray" where
  "cache_A_prev c = fst c"

definition cache_W :: "cache \<Rightarrow> farray" where
  "cache_W c = fst (snd c)"

definition cache_b :: "cache \<Rightarrow> farray" where
  "cache_b c = fst (snd (snd c))"

definition cache_Z :: "cache \<Rightarrow> farray" where
  "cache_Z c = fst (snd (snd (snd c)))"

definition cache_d_func :: "cache \<Rightarrow> d_func_ref" where
  "cache_d_func c = snd (snd (snd (snd c)))"

text \<open>
  The cache at position \<open>i\<close> of a list of caches is the record of layer \<open>i + 1\<close> of a forward
  pass from the input \<open>A0\<close> with batch size \<open>n\<close>: it holds the parameters of that layer, its
  input is \<open>A0\<close> for the first layer and the rectified \<open>Z\<close> of the cache before it otherwise,
  its \<open>Z\<close> is \<open>W \<sqdot> A_prev + b\<close>, and the shapes are those of the unit counts.
\<close>

definition layer_cache_ok ::
  "activations \<Rightarrow> nat list \<Rightarrow> nat \<Rightarrow> params \<Rightarrow> farray \<Rightarrow> cache list \<Rightarrow> nat \<Rightarrow> bool" where
  "layer_cache_ok acts units n ps A0 caches i =
     (map_of ps (PW (i + 1)) = Some (cache_W (caches ! i)) \<and>
      map_of ps (Pb (i + 1)) = Some (cache_b (caches ! i)) \<and>
      cache_A_prev (caches ! i) =
        (if i = 0 then A0 else nd_map (relu acts) (cache_Z (caches ! (i - 1)))) \<and>
      bindE (dot (cache_W (caches ! i)) (cache_A_prev (caches ! i)))
        (\<lambda>WA. broadcast fadd WA (cache_b (caches ! i))) = Inr (cache_Z (caches ! i)) \<and>
      shape (cache_A_prev (caches ! i)) = [units ! i, n] \<and>
      well_formed (cache_A_prev (caches ! i)) \<and>
      shape (cache_Z (caches ! i)) = [units ! (i + 1), n] \<and>
      well_formed (cache_Z (caches ! i)))"

section \<open>Properties\<close>

subsection \<open>Results and lists\<close>

lemma bindE_Inr [simp]: "bindE (Inr v) f = f v"
  by (simp add: bindE_def)

lemma bindE_Inl [simp]: "bindE (Inl e) f = Inl e"
  by (simp add: bindE_def)

lemma traverse_total:
  "(\<And>x. x \<in> set xs \<Longrightarrow> f x = Inr (g x)) \<Longrightarrow> traverse f xs = Inr (map g xs)"
  by (induction xs) simp_all

lemma concat_blocks:
  "concat (map (\<lambda>i. take b (drop (i * b) xs)) [0..<n]) = take (n * b) xs"
proof (induction n)
  case 0
  show ?case by simp
next
  case (Suc n)
  have "Suc n * b = n * b + b" by simp
  then have "take (Suc n * b) xs = take (n * b) xs @ take b (drop (n * b) xs)"
    by (simp only: take_add)
  with Suc show ?case by simp
qed

lemma ceil_div_covers:
  fixes m b :: nat
  assumes "0 < b"
  shows "m \<le> ((m + b - 1) div b) * b"
proof -
  have "(m + b - 1) mod b < b" using assms by simp
  moreover have "((m + b - 1) div b) * b + (m + b - 1) mod b = m + b - 1" by simp
  ultimately show ?thesis by linarith
qed

lemma ceil_div_last:
  fixes m b :: nat
  assumes "0 < b" "0 < m"
  shows "((m + b - 1) div b - 1) * b < m"
proof -
  obtain q where q: "q = (m + b - 1) div b" by simp
  have "q * b \<le> m + b - 1" unfolding q by simp
  moreover have "0 < q" unfolding q using assms by (simp add: div_greater_zero_iff)
  ultimately have "(q - 1) * b + b \<le> m + b - 1"
    by (cases q) simp_all
  then show ?thesis using assms unfolding q by linarith
qed

lemma ceil_div_dvd:
  fixes m b :: nat
  assumes "0 < b" "b dvd m"
  shows "(m + b - 1) div b = m div b"
proof -
  have "m + b - 1 = (b - 1) + (m div b) * b"
    using assms by simp
  then have "(m + b - 1) div b = ((b - 1) + (m div b) * b) div b"
    by simp
  also have "\<dots> = m div b + (b - 1) div b"
    using assms by (simp only: div_mult_self1)
  finally show ?thesis using assms by simp
qed

lemma ceil_div_ndvd:
  fixes m b :: nat
  assumes "0 < b" "\<not> b dvd m"
  shows "(m + b - 1) div b = Suc (m div b)"
proof -
  have pos: "0 < m mod b"
    using assms by (simp add: dvd_eq_mod_eq_0)
  have "m = m mod b + (m div b) * b" by simp
  then have "m + b - 1 = (m mod b - 1) + (Suc (m div b)) * b"
    using pos by simp
  then have "(m + b - 1) div b = ((m mod b - 1) + (Suc (m div b)) * b) div b"
    by simp
  also have "\<dots> = Suc (m div b) + (m mod b - 1) div b"
    using assms by (simp only: div_mult_self1)
  also have "(m mod b - 1) div b = 0"
    using assms pos by (simp add: less_imp_diff_less)
  finally show ?thesis by simp
qed

lemma mini_batches_eq:
  assumes "0 < mbs" "shape X = d # ds"
  shows "mini_batches X y m mbs =
         Inr (map (\<lambda>i. (NDArray ((min (i * nat mbs + nat mbs) d - min (i * nat mbs) d) # ds)
                           (py_slice (items X) (i * nat mbs * prod_list ds)
                              ((i * nat mbs + nat mbs) * prod_list ds)),
                         py_slice y (i * nat mbs) (i * nat mbs + nat mbs)))
                [0..<(m + nat mbs - 1) div nat mbs])"
proof -
  have "traverse
          (\<lambda>k. bindE (nd_slice X k (k + nat mbs))
                 (\<lambda>X_mini. Inr (X_mini, py_slice y k (k + nat mbs))))
          (py_range m (nat mbs))
        = Inr (map (\<lambda>k. (NDArray ((min (k + nat mbs) d - min k d) # ds)
                           (py_slice (items X) (k * prod_list ds)
                              ((k + nat mbs) * prod_list ds)),
                         py_slice y k (k + nat mbs)))
                (py_range m (nat mbs)))"
    by (rule traverse_total) (simp add: nd_slice_def assms)
  then show ?thesis
    using assms by (simp add: mini_batches_def py_range_def comp_def)
qed


lemma length_py_slice: "length (py_slice xs i j) = min (j - i) (length xs - i)"
  by (simp add: py_slice_def)

lemma batch_size:
  fixes m b i :: nat
  assumes "0 < b" "0 < m" "i < (m + b - 1) div b"
  shows "min b (m - i * b) = (if Suc i < (m + b - 1) div b then b else m - i * b)"
    and "0 < m - i * b"
proof -
  let ?n = "(m + b - 1) div b"
  have last: "(?n - 1) * b < m" using assms(1,2) by (rule ceil_div_last)
  have cover: "m \<le> ?n * b" using assms(1) by (rule ceil_div_covers)
  have "i \<le> ?n - 1" using assms(3) by linarith
  then have "i * b \<le> (?n - 1) * b" by (rule mult_le_mono1)
  with last show "0 < m - i * b" by linarith
  show "min b (m - i * b) = (if Suc i < ?n then b else m - i * b)"
  proof (cases "Suc i < ?n")
    case True
    then have "Suc i \<le> ?n - 1" by linarith
    then have "Suc i * b \<le> (?n - 1) * b" by (rule mult_le_mono1)
    with last have "Suc i * b < m" by linarith
    then have "i * b + b < m" by simp
    with True show ?thesis by simp
  next
    case False
    with assms have "?n = Suc i" by simp
    with cover have "m \<le> i * b + b" by simp
    with False show ?thesis by simp
  qed
qed

subsection \<open>Mini-batches\<close>

lemma mini_batches_slices:
  assumes "0 < mbs" and "0 < m" and "shape X = m # ds" and "well_formed X" and "length y = m"
  shows "\<exists>bs. mini_batches X y m mbs = Inr bs
     \<and> length bs = (m + nat mbs - 1) div nat mbs
     \<and> concat (map (\<lambda>B. items (fst B)) bs) = items X
     \<and> concat (map snd bs) = y
     \<and> (\<forall>i<length bs. well_formed (fst (bs ! i))
            \<and> shape (fst (bs ! i)) = length (snd (bs ! i)) # ds
            \<and> snd (bs ! i) = py_slice y (i * nat mbs) (i * nat mbs + nat mbs)
            \<and> length (snd (bs ! i)) = (if Suc i < length bs then nat mbs else m - i * nat mbs)
            \<and> 0 < length (snd (bs ! i)))
     \<and> (int m < mbs \<longrightarrow> bs = [(X, y)])
     \<and> length (snd (last bs)) = (if nat mbs dvd m then nat mbs else m mod nat mbs)"
proof -
  define b where "b = nat mbs"
  define R where "R = prod_list ds"
  define n where "n = (m + b - 1) div b"
  define g where "g = (\<lambda>i. (NDArray ((min (i * b + b) m - min (i * b) m) # ds)
                           (py_slice (items X) (i * b * R) ((i * b + b) * R)),
                         py_slice y (i * b) (i * b + b)))"
  define bs where "bs = map g [0..<n]"
  have b: "0 < b" using assms(1) by (simp add: b_def)
  have lenX: "length (items X) = m * R"
    using assms(3,4) by (simp add: well_formed_def R_def)
  have eq: "mini_batches X y m mbs = Inr bs"
    unfolding bs_def g_def n_def b_def R_def by (rule mini_batches_eq [OF assms(1) assms(3)])
  have len: "length bs = n" by (simp add: bs_def)
  have npos: "0 < n" unfolding n_def using b assms(2) by (simp add: div_greater_zero_iff)
  have cover: "m \<le> n * b" unfolding n_def using b by (rule ceil_div_covers)
  have ylen: "length (snd (g i)) = (if Suc i < n then b else m - i * b)"
    and ypos: "0 < length (snd (g i))" if "i < n" for i
  proof -
    have "length (snd (g i)) = min b (m - i * b)"
      by (simp add: g_def length_py_slice assms(5))
    moreover note batch_size [OF b assms(2) that [unfolded n_def]]
    ultimately show "length (snd (g i)) = (if Suc i < n then b else m - i * b)"
      and "0 < length (snd (g i))" using b by (simp_all add: n_def)
  qed
  have rows: "min (i * b + b) m - min (i * b) m = length (snd (g i))" for i
    by (simp add: g_def length_py_slice assms(5))
  have wf: "well_formed (fst (g i))" for i
  proof -
    have "length (py_slice (items X) (i * b * R) ((i * b + b) * R))
          = min (b * R) (m * R - i * b * R)"
      by (simp add: length_py_slice lenX add_mult_distrib)
    also have "\<dots> = min b (m - i * b) * R"
      by (simp add: nat_mult_min_left diff_mult_distrib)
    also have "min b (m - i * b) = min (i * b + b) m - min (i * b) m"
      by simp
    finally show ?thesis by (simp add: well_formed_def g_def R_def)
  qed
  have catX: "concat (map (\<lambda>B. items (fst B)) bs) = items X"
  proof -
    have "concat (map (\<lambda>B. items (fst B)) bs)
          = concat (map (\<lambda>i. take (b * R) (drop (i * (b * R)) (items X))) [0..<n])"
      by (simp add: bs_def g_def comp_def py_slice_def add_mult_distrib mult.assoc)
    also have "\<dots> = take (n * (b * R)) (items X)" by (rule concat_blocks)
    also have "\<dots> = items X"
    proof -
      have "m * R \<le> n * b * R" using cover by (rule mult_le_mono1)
      then show ?thesis by (simp add: lenX mult.assoc)
    qed
    finally show ?thesis .
  qed
  have caty: "concat (map snd bs) = y"
  proof -
    have "concat (map snd bs) = concat (map (\<lambda>i. take b (drop (i * b) y)) [0..<n])"
      by (simp add: bs_def g_def comp_def py_slice_def)
    also have "\<dots> = take (n * b) y" by (rule concat_blocks)
    also have "\<dots> = y" using cover by (simp add: assms(5))
    finally show ?thesis .
  qed
  have each: "\<forall>i<length bs. well_formed (fst (bs ! i))
            \<and> shape (fst (bs ! i)) = length (snd (bs ! i)) # ds
            \<and> snd (bs ! i) = py_slice y (i * nat mbs) (i * nat mbs + nat mbs)
            \<and> length (snd (bs ! i)) = (if Suc i < length bs then nat mbs else m - i * nat mbs)
            \<and> 0 < length (snd (bs ! i))"
  proof (intro allI impI)
    fix i assume "i < length bs"
    then have i: "i < n" by (simp add: len)
    then have nth: "bs ! i = g i" by (simp add: bs_def)
    have "shape (fst (g i)) = length (snd (g i)) # ds"
      using rows [of i] by (simp add: g_def)
    moreover have "snd (g i) = py_slice y (i * nat mbs) (i * nat mbs + nat mbs)"
      by (simp add: g_def b_def)
    ultimately show "well_formed (fst (bs ! i))
            \<and> shape (fst (bs ! i)) = length (snd (bs ! i)) # ds
            \<and> snd (bs ! i) = py_slice y (i * nat mbs) (i * nat mbs + nat mbs)
            \<and> length (snd (bs ! i)) = (if Suc i < length bs then nat mbs else m - i * nat mbs)
            \<and> 0 < length (snd (bs ! i))"
      using wf [of i] ylen [OF i] ypos [OF i] by (simp add: nth len b_def)
  qed
  have single: "bs = [(X, y)]" if "int m < mbs"
  proof -
    from that have mb: "m < b" by (simp add: b_def)
    then have "m + b - 1 < 2 * b" by simp
    then have "n < 2" unfolding n_def using b
      by (simp add: less_mult_imp_div_less)
    with npos have n1: "n = 1" by simp
    have "g 0 = (X, y)"
    proof -
      have "py_slice (items X) 0 (b * R) = items X"
        using mb by (simp add: py_slice_def lenX)
      moreover have "py_slice y 0 b = y"
        using mb by (simp add: py_slice_def assms(5))
      moreover have "min b m - min 0 m = m" using mb by simp
      ultimately have "g 0 = (NDArray (m # ds) (items X), y)"
        by (simp add: g_def)
      then show ?thesis using assms(3) by (cases X) simp
    qed
    then show ?thesis by (simp add: bs_def n1)
  qed
  have lastb: "length (snd (last bs)) = (if nat mbs dvd m then nat mbs else m mod nat mbs)"
  proof -
    have "bs \<noteq> []" using npos len by auto
    then have "last bs = g (n - 1)"
      using npos by (simp add: last_conv_nth len bs_def)
    then have l: "length (snd (last bs)) = m - (n - 1) * b"
      using ylen [of "n - 1"] npos by simp
    show ?thesis
    proof (cases "b dvd m")
      case True
      then have "n = m div b" unfolding n_def using b by (intro ceil_div_dvd)
      moreover have "m div b * b = m" using True by simp
      ultimately have "m - (n - 1) * b = b"
        using npos by (cases "m div b") (auto simp: algebra_simps)
      with l True show ?thesis by (simp add: b_def)
    next
      case False
      then have "n = Suc (m div b)" unfolding n_def using b by (intro ceil_div_ndvd)
      then have "m - (n - 1) * b = m mod b"
        by (simp add: minus_div_mult_eq_mod)
      with l False show ?thesis by (simp add: b_def)
    qed
  qed
  show ?thesis
    using eq len catX caty each single lastb
    unfolding n_def b_def by blast
qed


subsection \<open>Arrays\<close>

lemma length_concat_const:
  "(\<And>x. x \<in> set l \<Longrightarrow> length (g x) = c) \<Longrightarrow> length (concat (map g l)) = length l * c"
  by (induction l) simp_all

lemma length_chunks [simp]: "length (chunks d n xs) = d"
  by (simp add: chunks_def)

lemma chunk_length:
  assumes "c \<in> set (chunks d n xs)" "length xs = d * n"
  shows "length c = n"
proof -
  from assms(1) obtain i where i: "i < d" and c: "c = take n (drop (i * n) xs)"
    by (auto simp: chunks_def)
  have "Suc i * n \<le> d * n" using i by (intro mult_le_mono1) simp
  then have "n \<le> d * n - i * n" by simp
  then show ?thesis by (simp add: c assms(2))
qed

lemma concat_chunks: "length xs = d * n \<Longrightarrow> concat (chunks d n xs) = xs"
  using concat_blocks [of n xs d] by (simp add: chunks_def)

lemma broadcast_items_length:
  "broadcast_shapes s t = Some r \<Longrightarrow> length xs = prod_list s \<Longrightarrow> length ys = prod_list t
   \<Longrightarrow> length (broadcast_items f s t xs ys) = prod_list r"
proof (induction s t arbitrary: r xs ys rule: broadcast_shapes.induct)
  case (2 a s b t)
  show ?case
  proof (cases "a = b")
    case True
    with "2.prems"(1) obtain r' where r': "broadcast_shapes s t = Some r'" and r: "r = a # r'"
      by (auto split: if_splits)
    have "length (concat (map (\<lambda>(xc, yc). broadcast_items f s t xc yc)
                  (zip (chunks a (prod_list s) xs) (chunks b (prod_list t) ys))))
          = length (zip (chunks a (prod_list s) xs) (chunks b (prod_list t) ys)) * prod_list r'"
    proof (rule length_concat_const)
      fix p assume p: "p \<in> set (zip (chunks a (prod_list s) xs) (chunks b (prod_list t) ys))"
      obtain xc yc where pc: "p = (xc, yc)" by (cases p)
      from p pc have "xc \<in> set (chunks a (prod_list s) xs)" "yc \<in> set (chunks b (prod_list t) ys)"
        by (auto dest: set_zip_leftD set_zip_rightD)
      then have "length xc = prod_list s" "length yc = prod_list t"
        using "2.prems"(2,3) by (auto dest: chunk_length)
      then show "length (case p of (xc, yc) \<Rightarrow> broadcast_items f s t xc yc) = prod_list r'"
        using "2.IH"(1) [OF _ r'] True by (simp add: pc)
    qed
    then show ?thesis using True by (simp add: r)
  next
    case ne: False
    show ?thesis
    proof (cases "b = 1")
      case True
      with ne "2.prems"(1) obtain r' where r': "broadcast_shapes s t = Some r'" and r: "r = a # r'"
        by (auto split: if_splits)
      have "length (concat (map (\<lambda>xc. broadcast_items f s t xc ys) (chunks a (prod_list s) xs)))
            = length (chunks a (prod_list s) xs) * prod_list r'"
      proof (rule length_concat_const)
        fix xc assume "xc \<in> set (chunks a (prod_list s) xs)"
        then have "length xc = prod_list s" using "2.prems"(2) by (auto dest: chunk_length)
        then show "length (broadcast_items f s t xc ys) = prod_list r'"
          using "2.IH"(1) [OF _ r'] True "2.prems"(3) by simp
      qed
      then show ?thesis using ne True by (simp add: r)
    next
      case False
      with ne "2.prems"(1) have a1: "a = 1" by (auto split: if_splits)
      with ne False "2.prems"(1) obtain r' where r': "broadcast_shapes s t = Some r'"
        and r: "r = b # r'"
        by (auto split: if_splits)
      have "length (concat (map (\<lambda>yc. broadcast_items f s t xs yc) (chunks b (prod_list t) ys)))
            = length (chunks b (prod_list t) ys) * prod_list r'"
      proof (rule length_concat_const)
        fix yc assume "yc \<in> set (chunks b (prod_list t) ys)"
        then have "length yc = prod_list t" using "2.prems"(3) by (auto dest: chunk_length)
        then show "length (broadcast_items f s t xs yc) = prod_list r'"
          using "2.IH"(2) [OF _ _ r'] ne False a1 "2.prems"(2) by simp
      qed
      then show ?thesis using ne False by (simp add: r)
    qed
  qed
qed simp_all


lemma map2_blocks:
  "length xs = length ys \<Longrightarrow>
   concat (map (\<lambda>i. map (\<lambda>(x, y). f x y) (zip (take n (drop (i * n) xs)) (take n (drop (i * n) ys))))
             [0..<d])
   = map (\<lambda>(x, y). f x y) (zip (take (d * n) xs) (take (d * n) ys))"
proof (induction d)
  case 0
  show ?case by simp
next
  case (Suc d)
  have e: "Suc d * n = d * n + n" by simp
  have "zip (take (Suc d * n) xs) (take (Suc d * n) ys)
        = zip (take (d * n) xs) (take (d * n) ys)
          @ zip (take n (drop (d * n) xs)) (take n (drop (d * n) ys))"
    unfolding e take_add using Suc.prems by (intro zip_append) simp
  with Suc show ?case by simp
qed

lemma broadcast_items_same:
  "length xs = prod_list s \<Longrightarrow> length ys = prod_list s
   \<Longrightarrow> broadcast_items f s s xs ys = map (\<lambda>(x, y). f x y) (zip xs ys)"
proof (induction s arbitrary: xs ys)
  case Nil
  show ?case by simp
next
  case (Cons a s)
  let ?n = "prod_list s"
  have "concat (map (\<lambda>(xc, yc). broadcast_items f s s xc yc)
                  (zip (chunks a ?n xs) (chunks a ?n ys)))
        = concat (map (\<lambda>i. map (\<lambda>(x, y). f x y)
                    (zip (take ?n (drop (i * ?n) xs)) (take ?n (drop (i * ?n) ys)))) [0..<a])"
  proof -
    have "map (\<lambda>(xc, yc). broadcast_items f s s xc yc) (zip (chunks a ?n xs) (chunks a ?n ys))
          = map (\<lambda>i. map (\<lambda>(x, y). f x y)
                    (zip (take ?n (drop (i * ?n) xs)) (take ?n (drop (i * ?n) ys)))) [0..<a]"
    proof -
      have z: "zip (chunks a ?n xs) (chunks a ?n ys)
               = map (\<lambda>i. (take ?n (drop (i * ?n) xs), take ?n (drop (i * ?n) ys))) [0..<a]"
        by (simp add: chunks_def zip_map_map zip_same_conv_map)
      have "broadcast_items f s s (take ?n (drop (i * ?n) xs)) (take ?n (drop (i * ?n) ys))
            = map (\<lambda>(x, y). f x y) (zip (take ?n (drop (i * ?n) xs)) (take ?n (drop (i * ?n) ys)))"
        if "i < a" for i
      proof -
        have "Suc i * ?n \<le> a * ?n" using that by (intro mult_le_mono1) simp
        then have "?n \<le> a * ?n - i * ?n" by simp
        then have "length (take ?n (drop (i * ?n) xs)) = ?n"
          and "length (take ?n (drop (i * ?n) ys)) = ?n"
          using Cons.prems by simp_all
        then show ?thesis by (rule Cons.IH)
      qed
      then show ?thesis by (simp add: z)
    qed
    then show ?thesis by simp
  qed
  also have "\<dots> = map (\<lambda>(x, y). f x y) (zip (take (a * ?n) xs) (take (a * ?n) ys))"
    using Cons.prems by (intro map2_blocks) simp
  also have "\<dots> = map (\<lambda>(x, y). f x y) (zip xs ys)"
    using Cons.prems by simp
  finally show ?case by simp
qed

lemma broadcast_shapes_same [simp]: "broadcast_shapes s s = Some s"
  by (induction s) simp_all

lemma pad_shape_same [simp]: "pad_shape (length s) s = s"
  by (simp add: pad_shape_def)

lemma prod_list_pad_shape [simp]: "prod_list (pad_shape n s) = prod_list s"
  by (simp add: pad_shape_def)

lemma broadcast_same:
  assumes "shape A = shape B" "well_formed A" "well_formed B"
  shows "broadcast f A B = Inr (NDArray (shape A) (map (\<lambda>(x, y). f x y) (zip (items A) (items B))))"
  using assms by (simp add: broadcast_def well_formed_def broadcast_items_same)

lemma broadcast_well_formed:
  assumes "broadcast f A B = Inr C" "well_formed A" "well_formed B"
  shows "well_formed C"
proof -
  let ?n = "max (length (shape A)) (length (shape B))"
  from assms(1) obtain r where r: "broadcast_shapes (pad_shape ?n (shape A)) (pad_shape ?n (shape B)) = Some r"
    and C: "C = NDArray r (broadcast_items f (pad_shape ?n (shape A)) (pad_shape ?n (shape B)) (items A) (items B))"
    by (auto simp: broadcast_def Let_def split: option.splits)
  show ?thesis
    using broadcast_items_length [OF r, of "items A" "items B" f] assms(2,3)
    by (simp add: C well_formed_def)
qed

lemma broadcast_column:
  assumes "shape A = [u, n]" "shape b = [u, 1]" "well_formed A" "well_formed b"
  shows "\<exists>C. broadcast f A b = Inr C \<and> shape C = [u, n] \<and> well_formed C"
proof -
  have "\<exists>C. broadcast f A b = Inr C \<and> shape C = [u, n]"
    using assms(1,2) by (simp add: broadcast_def pad_shape_def)
  then show ?thesis using broadcast_well_formed assms(3,4) by blast
qed

lemma shape_mk2 [simp]: "shape (mk2 r c f) = [r, c]"
  by (simp add: mk2_def)

lemma well_formed_mk2 [simp]: "well_formed (mk2 r c f)"
  by (simp add: mk2_def well_formed_def)

lemma at2_mk2: "i < r \<Longrightarrow> j < c \<Longrightarrow> at2 (mk2 r c f) i j = f i j"
proof -
  assume i: "i < r" and j: "j < c"
  have "Suc i * c \<le> r * c" using i by (intro mult_le_mono1) simp
  then have "i * c + j < r * c" using j by simp
  then show ?thesis using j by (simp add: at2_def mk2_def)
qed

lemma nd_T_2d:
  assumes "shape A = [r, c]"
  shows "nd_T A = mk2 c r (\<lambda>j i. at2 A i j)"
  using assms by (simp add: nd_T_def mk2_def at2_def mult.commute)

lemma dot_2d:
  assumes "shape A = [r, n]" "shape B = [n, c]"
  shows "dot A B = Inr (mk2 r c (\<lambda>i j. fsum (map (\<lambda>k. fmul (at2 A i k) (at2 B k j)) [0..<n])))"
  using assms by (simp add: dot_def)

lemma shape_nd_map [simp]: "shape (nd_map f A) = shape A"
  by (simp add: nd_map_def)

lemma items_nd_map [simp]: "items (nd_map f A) = map f (items A)"
  by (simp add: nd_map_def)

lemma well_formed_nd_map [simp]: "well_formed (nd_map f A) = well_formed A"
  by (simp add: well_formed_def)

lemma at2_nd_map:
  "well_formed A \<Longrightarrow> shape A = [r, c] \<Longrightarrow> i < r \<Longrightarrow> j < c \<Longrightarrow> at2 (nd_map f A) i j = f (at2 A i j)"
proof -
  assume wf: "well_formed A" and sh: "shape A = [r, c]" and i: "i < r" and j: "j < c"
  have "Suc i * c \<le> r * c" using i by (intro mult_le_mono1) simp
  then have "i * c + j < r * c" using j by simp
  then show ?thesis using wf sh by (simp add: at2_def well_formed_def)
qed

subsection \<open>Construction\<close>

lemma length_alist_update:
  "length (AList.update k v al) = (if map_of al k = None then Suc (length al) else length al)"
  by (induction al) auto

lemma init_layers_fail:
  "\<exists>l\<in>set ls. a ! l < 0 \<or> a ! (l - 1) < 0
   \<Longrightarrow> init_layers samples a ls ps pos = Inl ValueError"
proof (induction ls arbitrary: ps pos)
  case Nil
  then show ?case by simp
next
  case (Cons l ls)
  show ?case
  proof (cases "a ! l < 0 \<or> a ! (l - 1) < 0")
    case True
    then show ?thesis by (simp add: np_random_randn_def)
  next
    case False
    with Cons.prems have "\<exists>l\<in>set ls. a ! l < 0 \<or> a ! (l - 1) < 0" by auto
    then have "\<And>ps pos. init_layers samples a ls ps pos = Inl ValueError"
      by (rule Cons.IH)
    with False show ?thesis by (simp add: np_random_randn_def np_zeros_def)
  qed
qed

lemma negative_entry_iff:
  "(\<exists>l\<in>set [1..<length a]. a ! l < 0 \<or> a ! (l - 1) < (0::int))
   \<longleftrightarrow> (2 \<le> length a \<and> (\<exists>d\<in>set a. d < 0))"
proof
  assume "\<exists>l\<in>set [1..<length a]. a ! l < 0 \<or> a ! (l - 1) < 0"
  then obtain l where l: "1 \<le> l" "l < length a" and neg: "a ! l < 0 \<or> a ! (l - 1) < 0"
    by auto
  from l have "a ! l \<in> set a" "a ! (l - 1) \<in> set a" by simp_all
  with neg l show "2 \<le> length a \<and> (\<exists>d\<in>set a. d < 0)" by auto
next
  assume r: "2 \<le> length a \<and> (\<exists>d\<in>set a. d < 0)"
  then obtain i where i: "i < length a" and neg: "a ! i < 0"
    by (auto simp: in_set_conv_nth)
  show "\<exists>l\<in>set [1..<length a]. a ! l < 0 \<or> a ! (l - 1) < 0"
  proof (cases i)
    case 0
    with neg r have "1 \<in> set [1..<length a]" "a ! (1 - 1) < 0" by simp_all
    then show ?thesis by blast
  next
    case (Suc k)
    with i neg have "i \<in> set [1..<length a]" "a ! i < 0" by simp_all
    then show ?thesis by blast
  qed
qed

lemma well_formed_randn:
  "np_random_randn samples pos d0 d1 = Inr (R, pos')
   \<Longrightarrow> shape R = [nat d0, nat d1] \<and> well_formed R"
  by (auto simp: np_random_randn_def well_formed_def split: if_splits)

lemma init_layers_ok:
  assumes "\<forall>l\<in>set ls. 0 \<le> a ! l \<and> 0 \<le> a ! (l - 1)"
    and "distinct ls"
    and "\<forall>l\<in>set ls. map_of ps (PW l) = None \<and> map_of ps (Pb l) = None"
  shows "\<exists>ps' pos'. init_layers samples a ls ps pos = Inr (ps', pos')
      \<and> length ps' = length ps + 2 * length ls
      \<and> (\<forall>k. k \<notin> PW ` set ls \<union> Pb ` set ls \<longrightarrow> map_of ps' k = map_of ps k)
      \<and> (\<forall>l\<in>set ls. \<exists>w b. map_of ps' (PW l) = Some w \<and> map_of ps' (Pb l) = Some b
            \<and> shape w = [nat (a ! l), nat (a ! (l - 1))] \<and> well_formed w
            \<and> shape b = [nat (a ! l), 1] \<and> well_formed b)"
  using assms
proof (induction ls arbitrary: ps pos)
  case Nil
  then show ?case by simp
next
  case (Cons l ls)
  define R where "R = NDArray [nat (a ! l), nat (a ! (l - 1))]
      (map (\<lambda>i. Fin (samples (pos + i))) [0..<nat (a ! l) * nat (a ! (l - 1))])"
  define w where "w = nd_map (\<lambda>x. fmul x (Fin (1 / 100))) R"
  define b where "b = NDArray [nat (a ! l), nat 1] (replicate (nat (a ! l) * nat 1) (Fin 0))"
  define ps1 where "ps1 = AList.update (Pb l) b (AList.update (PW l) w ps)"
  define pos1 where "pos1 = pos + nat (a ! l) * nat (a ! (l - 1))"
  have nonneg: "0 \<le> a ! l" "0 \<le> a ! (l - 1)" using Cons.prems(1) by simp_all
  have step: "init_layers samples a (l # ls) ps pos = init_layers samples a ls ps1 pos1"
    using nonneg by (simp add: np_random_randn_def np_zeros_def R_def w_def b_def ps1_def pos1_def)
  have fresh: "map_of ps (PW l) = None" "map_of ps (Pb l) = None"
    using Cons.prems(3) by simp_all
  have len1: "length ps1 = length ps + 2"
    using fresh by (simp add: ps1_def length_alist_update update_conv')
  have lk1: "map_of ps1 k = (if k = Pb l then Some b else if k = PW l then Some w else map_of ps k)" for k
    by (simp add: ps1_def update_conv')
  have "\<forall>l\<in>set ls. 0 \<le> a ! l \<and> 0 \<le> a ! (l - 1)" using Cons.prems(1) by simp
  moreover have "distinct ls" using Cons.prems(2) by simp
  moreover have "\<forall>l'\<in>set ls. map_of ps1 (PW l') = None \<and> map_of ps1 (Pb l') = None"
    using Cons.prems(2,3) by (auto simp: lk1)
  ultimately obtain ps' pos' where
    r: "init_layers samples a ls ps1 pos1 = Inr (ps', pos')"
    and len: "length ps' = length ps1 + 2 * length ls"
    and keep: "\<forall>k. k \<notin> PW ` set ls \<union> Pb ` set ls \<longrightarrow> map_of ps' k = map_of ps1 k"
    and new: "\<forall>l\<in>set ls. \<exists>w b. map_of ps' (PW l) = Some w \<and> map_of ps' (Pb l) = Some b
            \<and> shape w = [nat (a ! l), nat (a ! (l - 1))] \<and> well_formed w
            \<and> shape b = [nat (a ! l), 1] \<and> well_formed b"
    using Cons.IH [of ps1 pos1] by blast
  have lnot: "l \<notin> set ls" using Cons.prems(2) by simp
  then have "PW l \<notin> PW ` set ls \<union> Pb ` set ls" "Pb l \<notin> PW ` set ls \<union> Pb ` set ls"
    by auto
  with keep have here: "map_of ps' (PW l) = Some w" "map_of ps' (Pb l) = Some b"
    by (simp_all add: lk1)
  have shapes: "shape w = [nat (a ! l), nat (a ! (l - 1))]" "well_formed w"
    "shape b = [nat (a ! l), 1]" "well_formed b"
    by (simp_all add: w_def R_def b_def well_formed_def)
  have "\<forall>k. k \<notin> PW ` set (l # ls) \<union> Pb ` set (l # ls) \<longrightarrow> map_of ps' k = map_of ps k"
    using keep by (auto simp: lk1)
  moreover have "\<forall>l'\<in>set (l # ls). \<exists>w b. map_of ps' (PW l') = Some w \<and> map_of ps' (Pb l') = Some b
            \<and> shape w = [nat (a ! l'), nat (a ! (l' - 1))] \<and> well_formed w
            \<and> shape b = [nat (a ! l'), 1] \<and> well_formed b"
    using new here shapes by auto
  moreover have "length ps' = length ps + 2 * length (l # ls)"
    using len len1 by simp
  ultimately show ?case using step r by auto
qed


lemma layer_shapes_ok_iff:
  "layer_shapes_ok units d kW kb l \<longleftrightarrow>
     (\<exists>W b. map_of d kW = Some W \<and> map_of d kb = Some b
        \<and> shape W = [units ! l, units ! (l - 1)] \<and> well_formed W
        \<and> shape b = [units ! l, 1] \<and> well_formed b)"
  by (auto simp: layer_shapes_ok_def split: option.splits)

lemma init_layers_range:
  assumes "\<not> (2 \<le> length a \<and> (\<exists>d\<in>set a. d < 0))"
  shows "\<exists>ps pos'. init_layers samples a [1..<length a] [] pos = Inr (ps, pos')
      \<and> length ps = 2 * (length a - 1)
      \<and> (\<forall>l\<in>set [1..<length a]. \<exists>w b. map_of ps (PW l) = Some w \<and> map_of ps (Pb l) = Some b
            \<and> shape w = [nat (a ! l), nat (a ! (l - 1))] \<and> well_formed w
            \<and> shape b = [nat (a ! l), 1] \<and> well_formed b)"
proof -
  from assms have "\<not> (\<exists>l\<in>set [1..<length a]. a ! l < 0 \<or> a ! (l - 1) < 0)"
    by (simp only: negative_entry_iff not_False_eq_True)
  then have "\<forall>l\<in>set [1..<length a]. 0 \<le> a ! l \<and> 0 \<le> a ! (l - 1)"
    by (auto simp: not_less)
  moreover have "distinct [1..<length a]" by simp
  moreover have "\<forall>l\<in>set [1..<length a]. map_of [] (PW l) = (None :: farray option)
      \<and> map_of [] (Pb l) = (None :: farray option)" by simp
  ultimately show ?thesis
    using init_layers_ok [of "[1..<length a]" a "[]" samples pos] by auto
qed

text \<open>
  Claim C4, as the code has it. The constructor validates nothing and has no
  \<open>InvalidArchitecture\<close> error: it raises only when the architecture has at least two
  entries and one of them is negative, and then it is numpy's \<^verbatim>\<open>ValueError\<close>. In every
  other case, an architecture of fewer than two entries or one with a dimension 0
  included, construction succeeds, with two parameters per layer.
\<close>

theorem DeepNet_init_raises_iff:
  "(if 2 \<le> length a \<and> (\<exists>d\<in>set a. d < 0)
    then DeepNet_init samples pos a = Inl ValueError
    else \<exists>net pos'. DeepNet_init samples pos a = Inr (net, pos') \<and> L net = length a
           \<and> length (parameters net) = 2 * (length a - 1))"
proof (cases "2 \<le> length a \<and> (\<exists>d\<in>set a. d < 0)")
  case True
  then have "\<exists>l\<in>set [1..<length a]. a ! l < 0 \<or> a ! (l - 1) < 0"
    by (simp only: negative_entry_iff)
  then have "init_layers samples a [1..<length a] [] pos = Inl ValueError"
    by (rule init_layers_fail)
  with True show ?thesis by (simp add: DeepNet_init_def)
next
  case False
  from init_layers_range [OF False, of samples pos] obtain ps pos' where
    "init_layers samples a [1..<length a] [] pos = Inr (ps, pos')"
    "length ps = 2 * (length a - 1)" by blast
  with False show ?thesis by (simp add: DeepNet_init_def)
qed

text \<open>
  Claim C4 as stated fails: an architecture with one entry, and one with a dimension 0,
  are both accepted. The first gives a network without parameters, the second a layer
  with an empty weight matrix.
\<close>

theorem DeepNet_init_accepts_invalid:
  "DeepNet_init real 0 [3] = Inr (\<lparr>parameters = [], L = 1\<rparr>, 0)
   \<and> DeepNet_init real 0 [2, 0] =
       Inr (\<lparr>parameters = [(PW 1, NDArray [0, 2] []), (Pb 1, NDArray [0, 1] [])], L = 2\<rparr>, 0)"
  by (simp add: DeepNet_init_def np_random_randn_def np_zeros_def nd_map_def)

lemma DeepNet_init_shapes:
  assumes "2 \<le> length a" "\<forall>d\<in>set a. 0 < d"
  shows "\<exists>net pos'. DeepNet_init samples pos a = Inr (net, pos')
           \<and> shapes_match (map nat a) (parameters net)"
proof -
  from assms(2) have "\<not> (2 \<le> length a \<and> (\<exists>d\<in>set a. d < 0))" by auto
  from init_layers_range [OF this, of samples pos] obtain ps pos' where
    r: "init_layers samples a [1..<length a] [] pos = Inr (ps, pos')"
    and len: "length ps = 2 * (length a - 1)"
    and sh: "\<forall>l\<in>set [1..<length a]. \<exists>w b. map_of ps (PW l) = Some w \<and> map_of ps (Pb l) = Some b
            \<and> shape w = [nat (a ! l), nat (a ! (l - 1))] \<and> well_formed w
            \<and> shape b = [nat (a ! l), 1] \<and> well_formed b" by blast
  have "layer_shapes_ok (map nat a) ps (PW l) (Pb l) l" if "l \<in> set [1..<length a]" for l
  proof -
    from that have "l < length a" "l - 1 < length a" by auto
    then have "map nat a ! l = nat (a ! l)" "map nat a ! (l - 1) = nat (a ! (l - 1))"
      by simp_all
    with sh that show ?thesis unfolding layer_shapes_ok_iff by force
  qed
  then have "shapes_match (map nat a) ps"
    using len by (simp add: shapes_match_def list_all_iff)
  then show ?thesis using r by (simp add: DeepNet_init_def)
qed

subsection \<open>Parameter update\<close>

lemma getitem_Some [simp]: "map_of d k = Some v \<Longrightarrow> getitem d k = Inr v"
  by (simp add: getitem_def)

lemma getitem_None [simp]: "map_of d k = None \<Longrightarrow> getitem d k = Inl KeyError"
  by (simp add: getitem_def)

lemma shapes_match_update:
  assumes "shapes_match units ps" "map_of ps k = Some v" "shape v' = shape v" "well_formed v'"
  shows "shapes_match units (AList.update k v' ps)"
proof -
  have len: "length (AList.update k v' ps) = length ps"
    using assms(2) by (simp add: length_alist_update)
  have "layer_shapes_ok units (AList.update k v' ps) (PW l) (Pb l) l"
    if "layer_shapes_ok units ps (PW l) (Pb l) l" for l
  proof -
    from that obtain W b where Wb: "map_of ps (PW l) = Some W" "map_of ps (Pb l) = Some b"
      "shape W = [units ! l, units ! (l - 1)]" "well_formed W"
      "shape b = [units ! l, 1]" "well_formed b"
      unfolding layer_shapes_ok_iff by blast
    show ?thesis
      unfolding layer_shapes_ok_iff update_conv'
      using Wb assms(2,3,4) by (cases "k = PW l"; cases "k = Pb l") auto
  qed
  then show ?thesis
    using assms(1) len by (simp add: shapes_match_def list_all_iff)
qed

lemma shapes_match_lookup:
  assumes "shapes_match units ps" "1 \<le> l" "l < length units"
  shows "\<exists>W b. map_of ps (PW l) = Some W \<and> map_of ps (Pb l) = Some b
        \<and> shape W = [units ! l, units ! (l - 1)] \<and> well_formed W
        \<and> shape b = [units ! l, 1] \<and> well_formed b"
  using assms by (simp add: shapes_match_def list_all_iff layer_shapes_ok_iff)

lemma grads_match_lookup:
  assumes "grads_match units gs" "1 \<le> l" "l < length units"
  shows "\<exists>dW db. map_of gs (GdW l) = Some dW \<and> map_of gs (Gdb l) = Some db
        \<and> shape dW = [units ! l, units ! (l - 1)] \<and> well_formed dW
        \<and> shape db = [units ! l, 1] \<and> well_formed db"
  using assms by (simp add: grads_match_def list_all_iff layer_shapes_ok_iff)

lemma update_layers_ok:
  assumes "shapes_match units ps" "grads_match units gs"
    and "\<forall>l\<in>set ls. Suc l < length units"
  shows "\<exists>ps'. update_layers ps gs eta ls = Inr ps' \<and> shapes_match units ps'"
  using assms
proof (induction ls arbitrary: ps)
  case Nil
  then show ?case by simp
next
  case (Cons l ls)
  have l: "1 \<le> l + 1" "l + 1 < length units" using Cons.prems(3) by simp_all
  from shapes_match_lookup [OF Cons.prems(1) l] obtain W b where
    Wb: "map_of ps (PW (l + 1)) = Some W" "map_of ps (Pb (l + 1)) = Some b"
      "shape W = [units ! (l + 1), units ! (l + 1 - 1)]" "well_formed W"
      "shape b = [units ! (l + 1), 1]" "well_formed b" by blast
  from grads_match_lookup [OF Cons.prems(2) l] obtain dW db where
    g: "map_of gs (GdW (l + 1)) = Some dW" "map_of gs (Gdb (l + 1)) = Some db"
      "shape dW = [units ! (l + 1), units ! (l + 1 - 1)]" "well_formed dW"
      "shape db = [units ! (l + 1), 1]" "well_formed db" by blast
  define W' where "W' = NDArray (shape W)
      (map (\<lambda>(x, y). fsub x y) (zip (items W) (items (nd_map (fmul eta) dW))))"
  define b' where "b' = NDArray (shape b)
      (map (\<lambda>(x, y). fsub x y) (zip (items b) (items (nd_map (fmul eta) db))))"
  have bW: "broadcast fsub W (nd_map (fmul eta) dW) = Inr W'"
    unfolding W'_def using Wb g by (intro broadcast_same) simp_all
  have bb: "broadcast fsub b (nd_map (fmul eta) db) = Inr b'"
    unfolding b'_def using Wb g by (intro broadcast_same) simp_all
  have wfW': "shape W' = shape W" "well_formed W'"
    using broadcast_well_formed [OF bW] Wb(4) g(4) by (simp_all add: W'_def)
  have wfb': "shape b' = shape b" "well_formed b'"
    using broadcast_well_formed [OF bb] Wb(6) g(6) by (simp_all add: b'_def)
  define ps1 where "ps1 = AList.update (PW (l + 1)) W' ps"
  define ps2 where "ps2 = AList.update (Pb (l + 1)) b' ps1"
  have m1: "shapes_match units ps1"
    unfolding ps1_def using Cons.prems(1) Wb(1) wfW' by (rule shapes_match_update)
  have lk: "map_of ps1 (Pb (l + 1)) = Some b"
    using Wb(2) by (simp add: ps1_def update_conv')
  have m2: "shapes_match units ps2"
    unfolding ps2_def using m1 lk wfb' by (rule shapes_match_update)
  have step: "update_layers ps gs eta (l # ls) = update_layers ps2 gs eta ls"
    using Wb(1) g(1,2) bW bb lk by (simp add: ps1_def ps2_def)
  from Cons.IH [OF m2 Cons.prems(2)] Cons.prems(3) step show ?case by simp
qed

lemma update_params_ok:
  assumes "shapes_match units (parameters net)" "grads_match units gs"
  shows "\<exists>net'. update_params net gs eta = Inr net' \<and> shapes_match units (parameters net')"
proof -
  have n: "length (parameters net) div 2 = length units - 1"
    using assms(1) by (simp add: shapes_match_def)
  have "\<forall>l\<in>set [0..<length units - 1]. Suc l < length units" by auto
  from update_layers_ok [OF assms this, of eta] obtain ps' where
    "update_layers (parameters net) gs eta [0..<length units - 1] = Inr ps'"
    "shapes_match units ps'" by blast
  then show ?thesis by (simp add: update_params_def n)
qed

lemma update_sequence_ok:
  assumes "shapes_match units (parameters net)" "\<forall>g\<in>set gs. grads_match units (fst g)"
  shows "\<exists>net'. update_sequence net gs = Inr net' \<and> shapes_match units (parameters net')"
  using assms
proof (induction gs arbitrary: net)
  case Nil
  then show ?case by simp
next
  case (Cons g gs)
  obtain grads eta where g: "g = (grads, eta)" by (cases g)
  with Cons.prems have "grads_match units grads" by simp
  from update_params_ok [OF Cons.prems(1) this, of eta] obtain net1 where
    n1: "update_params net grads eta = Inr net1" "shapes_match units (parameters net1)" by blast
  from Cons.IH [OF n1(2)] Cons.prems(2) obtain net' where
    "update_sequence net1 gs = Inr net'" "shapes_match units (parameters net')" by auto
  with n1(1) show ?case by (simp add: g)
qed

text \<open>
  Claim C7. For a valid architecture \<open>a\<close> (at least two entries, all positive) the
  constructor succeeds and the parameters match the architecture: two entries per layer,
  \<^verbatim>\<open>W{l}\<close> of shape \<open>(a[l], a[l-1])\<close> and \<^verbatim>\<open>b{l}\<close> of shape \<open>(a[l], 1)\<close>. After any sequence of
  \<^verbatim>\<open>update_params\<close> calls whose gradients have these shapes, every call succeeds and the
  parameters still match the architecture.
\<close>

theorem init_and_updates_keep_shapes:
  assumes "2 \<le> length a" and "\<forall>d\<in>set a. 0 < d"
    and "\<forall>g\<in>set gs. grads_match (map nat a) (fst g)"
  shows "\<exists>net pos'. DeepNet_init samples pos a = Inr (net, pos')
           \<and> shapes_match (map nat a) (parameters net)
           \<and> (\<exists>net'. update_sequence net gs = Inr net'
                 \<and> shapes_match (map nat a) (parameters net'))"
proof -
  from DeepNet_init_shapes [OF assms(1,2), of samples pos] obtain net pos' where
    i: "DeepNet_init samples pos a = Inr (net, pos')"
      "shapes_match (map nat a) (parameters net)" by blast
  from update_sequence_ok [OF i(2) assms(3)] i show ?thesis by blast
qed

theorem init_and_updates_keep_shapes_witness:
  "\<exists>net pos'. DeepNet_init real 0 [2, 1] = Inr (net, pos')
     \<and> shapes_match [2, 1] (parameters net)
     \<and> (\<exists>net'. update_sequence net
             [([(GdW 1, NDArray [1, 2] [Fin 1, Fin 3]), (Gdb 1, NDArray [1, 1] [Fin 2])],
               Fin (1 / 2))] = Inr net'
           \<and> shapes_match [2, 1] (parameters net'))"
  using init_and_updates_keep_shapes [of "[2, 1]"
      "[([(GdW 1, NDArray [1, 2] [Fin 1, Fin 3]), (Gdb 1, NDArray [1, 1] [Fin 2])], Fin (1 / 2))]"
      real 0]
  by (simp add: grads_match_def layer_shapes_ok_def well_formed_def)

subsection \<open>The reshape in backpropagate\<close>

text \<open>
  Claim C3, as the code has it. \<^verbatim>\<open>backpropagate\<close> itself reshapes \<open>Y\<close> to the shape of \<open>AL\<close>
  (\<^verbatim>\<open>Y = Y.reshape(AL.shape)\<close>, line 101): a call with any \<open>Y\<close> that has as many elements as
  \<open>AL\<close> is the call with \<open>Y\<close> already reshaped, and a \<open>Y\<close> with another number of elements
  makes it raise \<^verbatim>\<open>ValueError\<close>.
\<close>

theorem backpropagate_reshapes_Y:
  "backpropagate acts AL Y caches =
     (if prod_list (shape Y) = prod_list (shape AL)
      then backpropagate acts AL (NDArray (shape AL) (items Y)) caches
      else Inl ValueError)"
  by (simp add: backpropagate_def reshape_def)

lemmas eval_simps =
  reshape_def broadcast_def pad_shape_def chunks_def get_prevlayer_gradient_def
  call_d_func_def call_activ_def nd_map_def shape_at_def py_recip_def dot_def mk2_def at2_def nd_T_def
  sum_axis1_def fsub_def upt_rec usual_activations_def usual_d_sigmoid_def

text \<open>
  Claim C3 as stated fails: called with the labels in the shape \<open>(1, 2, 1)\<close> in which
  \<^verbatim>\<open>SGD\<close> passes them, against an output of shape \<open>(2, 1)\<close>, \<^verbatim>\<open>backpropagate\<close> does not need
  the caller to reshape; it returns the gradients of the reshaped labels.
\<close>

theorem backpropagate_unreshaped_Y:
  "backpropagate usual_activations
     (NDArray [2, 1] [Fin (1 / 2), Fin (1 / 2)])
     (NDArray [1, 2, 1] [Fin 1, Fin 0])
     [(NDArray [1, 1] [Fin 1], NDArray [2, 1] [Fin 0, Fin 0], NDArray [2, 1] [Fin 0, Fin 0],
       NDArray [2, 1] [Fin 0, Fin 0], D_sigmoid)]
   = Inr [(GdA 1, NDArray [1, 1] [Fin 0]),
          (GdW 1, NDArray [2, 1] [Fin (- 1 / 2), Fin (1 / 2)]),
          (Gdb 1, NDArray [2, 1] [Fin (- 1 / 2), Fin (1 / 2)])]"
  by (simp add: backpropagate_def eval_simps)

subsection \<open>The backward loop on three layers\<close>

text \<open>
  Claim C1 against the code, on a network of three layers of one unit each and a batch
  of one example. The forward pass gives the three caches; in the backward pass the
  step of layer 3 produces \<open>dA_prev = -1\<close> (stored under \<^verbatim>\<open>dA3\<close>) and the step of layer 2
  produces \<open>dA_prev = -3\<close> (stored under \<^verbatim>\<open>dA2\<close>). The step of layer 1 is computed from
  \<^verbatim>\<open>grads["dA3"]\<close> again and yields \<open>dW1 = -1\<close>, where the gradient handed down by layer 2
  yields \<open>dW1 = -3\<close>.
\<close>

theorem backpropagate_three_layers:
  "feedforward usual_activations
     \<lparr>parameters =
        [(PW 1, NDArray [1, 1] [Fin 1]), (Pb 1, NDArray [1, 1] [Fin 0]),
         (PW 2, NDArray [1, 1] [Fin 3]), (Pb 2, NDArray [1, 1] [Fin 0]),
         (PW 3, NDArray [1, 1] [Fin 2]), (Pb 3, NDArray [1, 1] [Fin (- 6)])],
      L = 4\<rparr>
     (NDArray [1, 1] [Fin 1])
   = Inr (NDArray [1, 1] [Fin (1 / 2)],
       [(NDArray [1, 1] [Fin 1], NDArray [1, 1] [Fin 1], NDArray [1, 1] [Fin 0],
         NDArray [1, 1] [Fin 1], D_relu),
        (NDArray [1, 1] [Fin 1], NDArray [1, 1] [Fin 3], NDArray [1, 1] [Fin 0],
         NDArray [1, 1] [Fin 3], D_relu),
        (NDArray [1, 1] [Fin 3], NDArray [1, 1] [Fin 2], NDArray [1, 1] [Fin (- 6)],
         NDArray [1, 1] [Fin 0], D_sigmoid)])
   \<and> backpropagate usual_activations (NDArray [1, 1] [Fin (1 / 2)]) (NDArray [1, 1] [Fin 1])
       [(NDArray [1, 1] [Fin 1], NDArray [1, 1] [Fin 1], NDArray [1, 1] [Fin 0],
         NDArray [1, 1] [Fin 1], D_relu),
        (NDArray [1, 1] [Fin 1], NDArray [1, 1] [Fin 3], NDArray [1, 1] [Fin 0],
         NDArray [1, 1] [Fin 3], D_relu),
        (NDArray [1, 1] [Fin 3], NDArray [1, 1] [Fin 2], NDArray [1, 1] [Fin (- 6)],
         NDArray [1, 1] [Fin 0], D_sigmoid)]
   = Inr [(GdA 3, NDArray [1, 1] [Fin (- 1)]),
          (GdW 3, NDArray [1, 1] [Fin (- 3 / 2)]),
          (Gdb 3, NDArray [1, 1] [Fin (- 1 / 2)]),
          (GdA 2, NDArray [1, 1] [Fin (- 3)]),
          (GdW 2, NDArray [1, 1] [Fin (- 1)]),
          (Gdb 2, NDArray [1, 1] [Fin (- 1)]),
          (GdA 1, NDArray [1, 1] [Fin (- 1)]),
          (GdW 1, NDArray [1, 1] [Fin (- 1)]),
          (Gdb 1, NDArray [1, 1] [Fin (- 1)])]
   \<and> get_prevlayer_gradient usual_activations (NDArray [1, 1] [Fin (- 3)])
       (NDArray [1, 1] [Fin 1], NDArray [1, 1] [Fin 1], NDArray [1, 1] [Fin 0],
         NDArray [1, 1] [Fin 1], D_relu) Relu
   = Inr (NDArray [1, 1] [Fin (- 3)], NDArray [1, 1] [Fin (- 3)], NDArray [1, 1] [Fin (- 3)])"
  by (simp add: feedforward_def activate_def backpropagate_def getitem_def eval_simps)

subsection \<open>Cost\<close>

lemma bce_terms_zip:
  "length ys = length ps \<Longrightarrow>
   map (\<lambda>(a, b). fadd a b)
     (zip (map (\<lambda>(y, p). fmul y p) (zip ys (map flog ps)))
          (map (\<lambda>(y, p). fmul y p) (zip (map (fsub (Fin 1)) ys) (map flog (map (fsub (Fin 1)) ps)))))
   = map (\<lambda>(y, p). bce_term y p) (zip ys ps)"
  by (induction ys ps rule: list_induct2) (simp_all add: bce_term_def)

lemma float_max_pos: "0 < float_max"
  by (simp add: float_max_def)




subsection \<open>Forward propagation\<close>

lemma cache_sel [simp]:
  "cache_A_prev (A, W, b, Z, d) = A" "cache_W (A, W, b, Z, d) = W" "cache_b (A, W, b, Z, d) = b"
  "cache_Z (A, W, b, Z, d) = Z" "cache_d_func (A, W, b, Z, d) = d"
  by (simp_all add: cache_A_prev_def cache_W_def cache_b_def cache_Z_def cache_d_func_def)

lemma shape_call_activ [simp]: "shape (call_activ acts fn Z) = shape Z"
  by (cases fn) (simp_all add: call_activ_def)

lemma well_formed_call_activ [simp]: "well_formed (call_activ acts fn Z) = well_formed Z"
  by (cases fn) (simp_all add: call_activ_def)

lemma shape_call_d_func [simp]: "shape (call_d_func acts fn Z) = shape Z"
  by (cases fn) (simp_all add: call_d_func_def)

lemma well_formed_call_d_func [simp]: "well_formed (call_d_func acts fn Z) = well_formed Z"
  by (cases fn) (simp_all add: call_d_func_def)

lemma linear_ok:
  assumes "shape W = [u, k]" "shape b = [u, 1]" "well_formed b" "shape A = [k, n]"
  shows "\<exists>Z. bindE (dot W A) (\<lambda>WA. broadcast fadd WA b) = Inr Z \<and> shape Z = [u, n]
           \<and> well_formed Z"
proof -
  let ?WA = "mk2 u n (\<lambda>i j. fsum (map (\<lambda>k. fmul (at2 W i k) (at2 A k j)) [0..<k]))"
  have d: "dot W A = Inr ?WA" using assms(1,4) by (rule dot_2d)
  from broadcast_column [of ?WA u n b fadd] assms(2,3)
  obtain Z where "broadcast fadd ?WA b = Inr Z" "shape Z = [u, n]" "well_formed Z" by auto
  with d show ?thesis by simp
qed

lemma activate_eq:
  assumes "bindE (dot W A) (\<lambda>WA. broadcast fadd WA b) = Inr Z"
  shows "activate acts A W b fn
         = Inr (call_activ acts fn Z, (A, W, b, Z, if fn = Relu then D_relu else D_sigmoid))"
  using assms by (cases "dot W A") (simp_all add: activate_def Let_def)


lemma layer_cache_ok_append:
  assumes "layer_cache_ok acts units n ps A0 caches i" "i < length caches"
  shows "layer_cache_ok acts units n ps A0 (caches @ cs) i"
proof -
  have "i - 1 < length caches" using assms(2) by linarith
  then have e: "(caches @ cs) ! i = caches ! i" "(caches @ cs) ! (i - 1) = caches ! (i - 1)"
    using assms(2) by (simp_all only: nth_append if_True)
  from assms(1) show ?thesis unfolding layer_cache_ok_def e .
qed

lemma feedforward_hidden_trace:
  assumes sm: "shapes_match units ps"
    and "1 \<le> k" "k \<le> j" "j < length units"
    and "length caches = k - 1"
    and "\<forall>i<k - 1. layer_cache_ok acts units n ps A0 caches i
            \<and> cache_d_func (caches ! i) = D_relu"
    and "A = (if k = 1 then A0 else nd_map (relu acts) (cache_Z (caches ! (k - 2))))"
    and "shape A = [units ! (k - 1), n]" "well_formed A"
  shows "\<exists>A' caches'. feedforward_hidden acts ps [k..<j] A caches = Inr (A', caches')
      \<and> length caches' = j - 1
      \<and> (\<forall>i<j - 1. layer_cache_ok acts units n ps A0 caches' i
            \<and> cache_d_func (caches' ! i) = D_relu)
      \<and> A' = (if j = 1 then A0 else nd_map (relu acts) (cache_Z (caches' ! (j - 2))))
      \<and> shape A' = [units ! (j - 1), n] \<and> well_formed A'"
  using assms(2-)
proof (induction "j - k" arbitrary: k A caches)
  case 0
  then have "k = j" by simp
  with 0 show ?case by simp
next
  case (Suc d)
  then have kj: "k < j" by simp
  then have kN: "k < length units" using Suc.prems(3) by simp
  from shapes_match_lookup [OF sm Suc.prems(1) kN] obtain W b where
    Wb: "map_of ps (PW k) = Some W" "map_of ps (Pb k) = Some b"
      "shape W = [units ! k, units ! (k - 1)]" "well_formed W"
      "shape b = [units ! k, 1]" "well_formed b" by blast
  from linear_ok [OF Wb(3,5,6) Suc.prems(7)] obtain Z where
    Z: "bindE (dot W A) (\<lambda>WA. broadcast fadd WA b) = Inr Z" "shape Z = [units ! k, n]"
      "well_formed Z" by blast
  define c where "c = (A, W, b, Z, D_relu)"
  define A1 where "A1 = nd_map (relu acts) Z"
  have act: "activate acts A W b Relu = Inr (A1, c)"
    using activate_eq [OF Z(1), of acts Relu] by (simp add: c_def A1_def call_activ_def)
  have step: "feedforward_hidden acts ps [k..<j] A caches
              = feedforward_hidden acts ps [Suc k..<j] A1 (caches @ [c])"
    using kj Wb(1,2) act by (simp add: upt_conv_Cons)
  have len: "length (caches @ [c]) = Suc k - 1"
    using Suc.prems(1,4) by simp
  have nth_new: "(caches @ [c]) ! (k - 1) = c"
    using Suc.prems(4) by (simp add: nth_append)
  have new_ok: "layer_cache_ok acts units n ps A0 (caches @ [c]) (k - 1)"
  proof -
    have prev: "(caches @ [c]) ! (k - 1 - 1) = caches ! (k - 2)" if "k \<noteq> 1"
    proof -
      have e: "k - 1 - 1 = k - 2" by linarith
      have "k - 2 < length caches" using that Suc.prems(1,4) by linarith
      then have "(caches @ [c]) ! (k - 2) = caches ! (k - 2)"
        by (simp only: nth_append if_True)
      then show ?thesis by (simp only: e)
    qed
    have "A = (if k - 1 = 0 then A0
               else nd_map (relu acts) (cache_Z ((caches @ [c]) ! (k - 1 - 1))))"
      using Suc.prems(6) Suc.prems(1) prev by (cases "k = 1") auto
    then show ?thesis
      unfolding layer_cache_ok_def nth_new
      using Wb(1,2) Z Suc.prems(1,7,8) by (simp add: c_def)
  qed
  have all_ok: "\<forall>i<Suc k - 1. layer_cache_ok acts units n ps A0 (caches @ [c]) i
            \<and> cache_d_func ((caches @ [c]) ! i) = D_relu"
  proof (intro allI impI)
    fix i assume i: "i < Suc k - 1"
    show "layer_cache_ok acts units n ps A0 (caches @ [c]) i
            \<and> cache_d_func ((caches @ [c]) ! i) = D_relu"
    proof (cases "i < k - 1")
      case True
      then have "layer_cache_ok acts units n ps A0 caches i" "cache_d_func (caches ! i) = D_relu"
        using Suc.prems(5) by simp_all
      moreover have "i < length caches" using True Suc.prems(4) by simp
      ultimately show ?thesis
        by (simp add: layer_cache_ok_append nth_append)
    next
      case False
      with i have "i = k - 1" by simp
      then show ?thesis using new_ok nth_new by (simp add: c_def)
    qed
  qed
  have A1: "A1 = (if Suc k = 1 then A0
                  else nd_map (relu acts) (cache_Z ((caches @ [c]) ! (Suc k - 2))))"
    using nth_new Suc.prems(1) by (simp add: A1_def c_def)
  have shA1: "shape A1 = [units ! (Suc k - 1), n]" "well_formed A1"
    using Z by (simp_all add: A1_def)
  have "d = j - Suc k" using Suc.hyps(2) by simp
  from Suc.hyps(1) [OF this _ _ Suc.prems(3) len all_ok A1 shA1] kj
  show ?case unfolding step by simp
qed


lemma feedforward_trace:
  assumes sm: "shapes_match units (parameters net)" and N: "2 \<le> length units"
    and A0: "shape A0 = [units ! 0, n]" "well_formed A0"
  shows "\<exists>AL caches. feedforward acts net A0 = Inr (AL, caches)
      \<and> length caches = length units - 1
      \<and> (\<forall>i<length caches. layer_cache_ok acts units n (parameters net) A0 caches i
            \<and> cache_d_func (caches ! i) = (if Suc i = length caches then D_sigmoid else D_relu))
      \<and> AL = nd_map (sigmoid acts) (cache_Z (last caches))
      \<and> shape AL = [units ! (length units - 1), n] \<and> well_formed AL"
proof -
  define ps where "ps = parameters net"
  define j where "j = length units - 1"
  have nl: "length ps div 2 = j"
    using sm by (simp add: shapes_match_def ps_def j_def)
  have j: "1 \<le> j" "j < length units" using N by (simp_all add: j_def)
  have "\<exists>A' caches'. feedforward_hidden acts ps [1..<j] A0 [] = Inr (A', caches')
      \<and> length caches' = j - 1
      \<and> (\<forall>i<j - 1. layer_cache_ok acts units n ps A0 caches' i
            \<and> cache_d_func (caches' ! i) = D_relu)
      \<and> A' = (if j = 1 then A0 else nd_map (relu acts) (cache_Z (caches' ! (j - 2))))
      \<and> shape A' = [units ! (j - 1), n] \<and> well_formed A'"
    using sm [folded ps_def] _ j A0 by (intro feedforward_hidden_trace) simp_all
  then obtain A' caches' where
    h: "feedforward_hidden acts ps [1..<j] A0 [] = Inr (A', caches')"
    and len: "length caches' = j - 1"
    and ok: "\<forall>i<j - 1. layer_cache_ok acts units n ps A0 caches' i
            \<and> cache_d_func (caches' ! i) = D_relu"
    and A': "A' = (if j = 1 then A0 else nd_map (relu acts) (cache_Z (caches' ! (j - 2))))"
    and shA': "shape A' = [units ! (j - 1), n]" "well_formed A'" by blast
  from shapes_match_lookup [OF sm [folded ps_def] j] obtain W b where
    Wb: "map_of ps (PW j) = Some W" "map_of ps (Pb j) = Some b"
      "shape W = [units ! j, units ! (j - 1)]" "well_formed W"
      "shape b = [units ! j, 1]" "well_formed b" by blast
  from linear_ok [OF Wb(3,5,6) shA'(1)] obtain Z where
    Z: "bindE (dot W A') (\<lambda>WA. broadcast fadd WA b) = Inr Z" "shape Z = [units ! j, n]"
      "well_formed Z" by blast
  define c where "c = (A', W, b, Z, D_sigmoid)"
  define AL where "AL = nd_map (sigmoid acts) Z"
  have act: "activate acts A' W b Sigmoid = Inr (AL, c)"
    using activate_eq [OF Z(1), of acts Sigmoid] by (simp add: c_def AL_def call_activ_def)
  have ff: "feedforward acts net A0 = Inr (AL, caches' @ [c])"
    using h Wb(1,2) act nl by (simp add: feedforward_def ps_def [symmetric])
  have lenc: "length (caches' @ [c]) = j" using len j(1) by simp
  have nth_new: "(caches' @ [c]) ! (j - 1) = c" using len by (simp add: nth_append)
  have new_ok: "layer_cache_ok acts units n ps A0 (caches' @ [c]) (j - 1)"
  proof -
    have prev: "(caches' @ [c]) ! (j - 1 - 1) = caches' ! (j - 2)" if "j \<noteq> 1"
    proof -
      have e: "j - 1 - 1 = j - 2" by linarith
      have "j - 2 < length caches'" using that j(1) len by linarith
      then have "(caches' @ [c]) ! (j - 2) = caches' ! (j - 2)"
        by (simp only: nth_append if_True)
      then show ?thesis by (simp only: e)
    qed
    have "A' = (if j - 1 = 0 then A0
               else nd_map (relu acts) (cache_Z ((caches' @ [c]) ! (j - 1 - 1))))"
      using A' j(1) prev by (cases "j = 1") auto
    then show ?thesis
      unfolding layer_cache_ok_def nth_new
      using Wb(1,2) Z j(1) shA' by (simp add: c_def)
  qed
  have all_ok: "\<forall>i<length (caches' @ [c]).
        layer_cache_ok acts units n ps A0 (caches' @ [c]) i
        \<and> cache_d_func ((caches' @ [c]) ! i)
            = (if Suc i = length (caches' @ [c]) then D_sigmoid else D_relu)"
  proof (intro allI impI)
    fix i assume "i < length (caches' @ [c])"
    then have i: "i < j" using lenc by simp
    show "layer_cache_ok acts units n ps A0 (caches' @ [c]) i
        \<and> cache_d_func ((caches' @ [c]) ! i)
            = (if Suc i = length (caches' @ [c]) then D_sigmoid else D_relu)"
    proof (cases "i < j - 1")
      case True
      then have "layer_cache_ok acts units n ps A0 caches' i" "cache_d_func (caches' ! i) = D_relu"
        using ok by simp_all
      moreover have "i < length caches'" using True len by simp
      moreover have "Suc i \<noteq> length (caches' @ [c])" using True lenc by simp
      ultimately show ?thesis
        by (simp add: layer_cache_ok_append nth_append)
    next
      case False
      with i have e: "i = j - 1" by simp
      then have "Suc i = length (caches' @ [c])" using lenc j(1) by simp
      then show ?thesis using new_ok nth_new e by (simp add: c_def)
    qed
  qed
  have "AL = nd_map (sigmoid acts) (cache_Z (last (caches' @ [c])))"
    by (simp add: AL_def c_def)
  moreover have "shape AL = [units ! (length units - 1), n]" "well_formed AL"
    using Z by (simp_all add: AL_def j_def)
  ultimately show ?thesis
    using ff all_ok lenc unfolding ps_def j_def by blast
qed


text \<open>
  Claim C6. Let the parameters match unit counts \<open>units\<close> with \<open>L = length units - 1 \<ge> 1\<close>
  layers, and let \<open>A0\<close> be a batch of shape \<open>(units[0], n)\<close>. Then \<^verbatim>\<open>feedforward\<close> returns an
  output of shape \<open>(units[L], n)\<close> and exactly \<open>L\<close> caches in the order of the layers: the
  cache at position \<open>i\<close> holds the parameters \<^verbatim>\<open>W{i+1}\<close>, \<^verbatim>\<open>b{i+1}\<close> and \<open>Z = W \<sqdot> A_prev + b\<close> of
  layer \<open>i + 1\<close>; the input of the first layer is \<open>A0\<close>, the input of every later layer is the
  rectified \<open>Z\<close> of the layer before it, the output is the sigmoid of the last \<open>Z\<close>; and the
  recorded derivative is the rectifier's for the layers \<open>1..L-1\<close> and the sigmoid's for
  layer \<open>L\<close>.
\<close>

theorem feedforward_activations_and_shapes:
  assumes "shapes_match units (parameters net)" and "2 \<le> length units"
    and "shape A0 = [units ! 0, n]" and "well_formed A0"
  shows "\<exists>AL caches. feedforward acts net A0 = Inr (AL, caches)
      \<and> shape AL = [units ! (length units - 1), n] \<and> well_formed AL
      \<and> length caches = length units - 1
      \<and> (\<forall>i<length caches.
            map_of (parameters net) (PW (i + 1)) = Some (cache_W (caches ! i))
          \<and> map_of (parameters net) (Pb (i + 1)) = Some (cache_b (caches ! i))
          \<and> bindE (dot (cache_W (caches ! i)) (cache_A_prev (caches ! i)))
               (\<lambda>WA. broadcast fadd WA (cache_b (caches ! i))) = Inr (cache_Z (caches ! i))
          \<and> shape (cache_Z (caches ! i)) = [units ! (i + 1), n]
          \<and> cache_d_func (caches ! i) = (if Suc i = length caches then D_sigmoid else D_relu))
      \<and> cache_A_prev (caches ! 0) = A0
      \<and> (\<forall>i. Suc i < length caches \<longrightarrow>
            cache_A_prev (caches ! Suc i) = nd_map (relu acts) (cache_Z (caches ! i)))
      \<and> AL = nd_map (sigmoid acts) (cache_Z (last caches))"
proof -
  from feedforward_trace [OF assms, of acts] obtain AL caches where
    ff: "feedforward acts net A0 = Inr (AL, caches)"
    and len: "length caches = length units - 1"
    and ok: "\<forall>i<length caches. layer_cache_ok acts units n (parameters net) A0 caches i
            \<and> cache_d_func (caches ! i) = (if Suc i = length caches then D_sigmoid else D_relu)"
    and AL: "AL = nd_map (sigmoid acts) (cache_Z (last caches))"
      "shape AL = [units ! (length units - 1), n]" "well_formed AL" by blast
  have pos: "0 < length caches" using len assms(2) by simp
  have "cache_A_prev (caches ! 0) = A0"
    using ok pos by (simp add: layer_cache_ok_def)
  moreover have "cache_A_prev (caches ! Suc i) = nd_map (relu acts) (cache_Z (caches ! i))"
    if "Suc i < length caches" for i
    using ok that by (simp add: layer_cache_ok_def)
  moreover have "\<forall>i<length caches.
            map_of (parameters net) (PW (i + 1)) = Some (cache_W (caches ! i))
          \<and> map_of (parameters net) (Pb (i + 1)) = Some (cache_b (caches ! i))
          \<and> bindE (dot (cache_W (caches ! i)) (cache_A_prev (caches ! i)))
               (\<lambda>WA. broadcast fadd WA (cache_b (caches ! i))) = Inr (cache_Z (caches ! i))
          \<and> shape (cache_Z (caches ! i)) = [units ! (i + 1), n]
          \<and> cache_d_func (caches ! i) = (if Suc i = length caches then D_sigmoid else D_relu)"
    using ok unfolding layer_cache_ok_def by blast
  ultimately show ?thesis using ff len AL by blast
qed

theorem feedforward_activations_and_shapes_witness:
  "\<exists>AL caches.
     feedforward usual_activations
       \<lparr>parameters =
          [(PW 1, NDArray [2, 2] [Fin 1, Fin (- 1), Fin 2, Fin 0]),
           (Pb 1, NDArray [2, 1] [Fin 0, Fin 1]),
           (PW 2, NDArray [1, 2] [Fin 1, Fin (- 1)]),
           (Pb 2, NDArray [1, 1] [Fin 0])],
        L = 3\<rparr>
       (NDArray [2, 3] [Fin 1, Fin 2, Fin 3, Fin 0, Fin 4, Fin 5]) = Inr (AL, caches)
     \<and> shape AL = [1, 3] \<and> well_formed AL \<and> length caches = 2
     \<and> cache_d_func (caches ! 0) = D_relu \<and> cache_d_func (caches ! 1) = D_sigmoid"
proof -
  have sm: "shapes_match [2, 2, 1]
     [(PW 1, NDArray [2, 2] [Fin 1, Fin (- 1), Fin 2, Fin 0]),
      (Pb 1, NDArray [2, 1] [Fin 0, Fin 1]),
      (PW 2, NDArray [1, 2] [Fin 1, Fin (- 1)]),
      (Pb 2, NDArray [1, 1] [Fin 0])]"
    by (simp add: shapes_match_def layer_shapes_ok_def well_formed_def upt_rec)
  show ?thesis
    using sm feedforward_activations_and_shapes [of "[2, 2, 1]"
      "\<lparr>parameters =
          [(PW 1, NDArray [2, 2] [Fin 1, Fin (- 1), Fin 2, Fin 0]),
           (Pb 1, NDArray [2, 1] [Fin 0, Fin 1]),
           (PW 2, NDArray [1, 2] [Fin 1, Fin (- 1)]),
           (Pb 2, NDArray [1, 1] [Fin 0])],
        L = 3\<rparr>"
      "NDArray [2, 3] [Fin 1, Fin 2, Fin 3, Fin 0, Fin 4, Fin 5]" 3 usual_activations]
    by (fastforce simp: well_formed_def)
qed

subsection \<open>Backward step\<close>

lemma at2_zip:
  assumes "length xs = r * c" "length ys = r * c" "i < r" "j < c"
  shows "at2 (NDArray [r, c] (map (\<lambda>(x, y). f x y) (zip xs ys))) i j
         = f (at2 (NDArray [r, c] xs) i j) (at2 (NDArray [r, c] ys) i j)"
proof -
  have "Suc i * c \<le> r * c" using assms(3) by (intro mult_le_mono1) simp
  then have "i * c + j < r * c" using assms(4) by simp
  then show ?thesis using assms(1,2) by (simp add: at2_def)
qed

lemma at2_cong: "shape A = shape B \<Longrightarrow> items A = items B \<Longrightarrow> at2 A i j = at2 B i j"
  by (simp add: at2_def)

lemma at2_nd_T:
  assumes "shape A = [r, c]" "i < r" "j < c"
  shows "at2 (nd_T A) j i = at2 A i j"
  using assms by (simp add: nd_T_2d at2_mk2)

lemma shape_nd_T_2d: "shape A = [r, c] \<Longrightarrow> shape (nd_T A) = [c, r]"
  by (simp add: nd_T_2d)

lemma sum_axis1_2d:
  "shape A = [r, c] \<Longrightarrow>
   sum_axis1 A = Inr (mk2 r 1 (\<lambda>i j. fsum (map (\<lambda>k. at2 A i k) [0..<c])))"
  by (simp add: sum_axis1_def)

lemma elementwise_product:
  assumes "shape dA = [u, m]" "well_formed dA" "shape Z = [u, m]" "well_formed Z"
  shows "\<exists>dZ. broadcast fmul dA (nd_map g Z) = Inr dZ \<and> shape dZ = [u, m] \<and> well_formed dZ
           \<and> (\<forall>r<u. \<forall>j<m. at2 dZ r j = fmul (at2 dA r j) (g (at2 Z r j)))"
proof -
  define dZ where "dZ = NDArray [u, m]
      (map (\<lambda>(x, y). fmul x y) (zip (items dA) (items (nd_map g Z))))"
  have b: "broadcast fmul dA (nd_map g Z) = Inr dZ"
    using broadcast_same [of dA "nd_map g Z" fmul] assms by (simp add: dZ_def)
  have wf: "well_formed dZ" using broadcast_well_formed [OF b] assms(2,4) by simp
  have "at2 dZ r j = fmul (at2 dA r j) (g (at2 Z r j))" if "r < u" "j < m" for r j
  proof -
    have l: "length (items dA) = u * m" "length (map g (items Z)) = u * m"
      using assms by (simp_all add: well_formed_def)
    have "at2 dZ r j = fmul (at2 (NDArray [u, m] (items dA)) r j)
                         (at2 (NDArray [u, m] (map g (items Z))) r j)"
      unfolding dZ_def items_nd_map using l that by (rule at2_zip)
    moreover have "at2 (NDArray [u, m] (items dA)) r j = at2 dA r j"
      using assms(1) by (intro at2_cong) simp_all
    moreover have "at2 (NDArray [u, m] (map g (items Z))) r j = at2 (nd_map g Z) r j"
      using assms(3) by (intro at2_cong) simp_all
    moreover have "at2 (nd_map g Z) r j = g (at2 Z r j)"
      using assms(4,3) that by (rule at2_nd_map)
    ultimately show ?thesis by simp
  qed
  then show ?thesis using b wf by (auto simp: dZ_def)
qed


lemma call_d_func_nd_map:
  "call_d_func acts d Z = nd_map (case d of D_relu \<Rightarrow> d_relu acts | D_sigmoid \<Rightarrow> d_sigmoid acts) Z"
  by (cases d) (simp_all add: call_d_func_def)

lemma get_prevlayer_gradient_entries:
  assumes Ap: "shape A_prev = [k, m]" and W: "shape W = [u, k]"
    and Z: "shape Z = [u, m]" "well_formed Z"
    and dA: "shape dA = [u, m]" "well_formed dA" and m: "0 < m"
  shows "\<exists>dZ dA_prev dW db.
      broadcast fmul dA (call_d_func acts d Z) = Inr dZ
      \<and> get_prevlayer_gradient acts dA (A_prev, W, b, Z, d) fn = Inr (dA_prev, dW, db)
      \<and> (\<forall>r<u. \<forall>j<m. at2 dZ r j
            = fmul (at2 dA r j)
                ((case d of D_relu \<Rightarrow> d_relu acts | D_sigmoid \<Rightarrow> d_sigmoid acts) (at2 Z r j)))
      \<and> shape dW = [u, k] \<and> well_formed dW
      \<and> shape db = [u, 1] \<and> well_formed db
      \<and> shape dA_prev = [k, m] \<and> well_formed dA_prev
      \<and> (\<forall>r<u. \<forall>c<k. at2 dW r c
            = fmul (Fin (1 / real m))
                (fsum (map (\<lambda>j. fmul (at2 dZ r j) (at2 A_prev c j)) [0..<m])))
      \<and> (\<forall>r<u. at2 db r 0
            = fmul (Fin (1 / real m)) (fsum (map (\<lambda>j. at2 dZ r j) [0..<m])))
      \<and> (\<forall>c<k. \<forall>j<m. at2 dA_prev c j
            = fsum (map (\<lambda>r. fmul (at2 W r c) (at2 dZ r j)) [0..<u]))"
proof -
  let ?g = "case d of D_relu \<Rightarrow> d_relu acts | D_sigmoid \<Rightarrow> d_sigmoid acts"
  from elementwise_product [OF dA Z, of ?g] obtain dZ where
    dZ: "broadcast fmul dA (nd_map ?g Z) = Inr dZ" "shape dZ = [u, m]" "well_formed dZ"
    and dZe: "\<forall>r<u. \<forall>j<m. at2 dZ r j = fmul (at2 dA r j) (?g (at2 Z r j))" by blast
  define P where "P = mk2 u k (\<lambda>i j. fsum (map (\<lambda>q. fmul (at2 dZ i q) (at2 (nd_T A_prev) q j)) [0..<m]))"
  define S where "S = mk2 u 1 (\<lambda>i j. fsum (map (\<lambda>q. at2 dZ i q) [0..<m]))"
  define Q where "Q = mk2 k m (\<lambda>i j. fsum (map (\<lambda>q. fmul (at2 (nd_T W) i q) (at2 dZ q j)) [0..<u]))"
  define rm where "rm = Fin (1 / real m)"
  have dP: "dot dZ (nd_T A_prev) = Inr P"
    unfolding P_def using dZ(2) shape_nd_T_2d [OF Ap] by (rule dot_2d)
  have dS: "sum_axis1 dZ = Inr S"
    unfolding S_def using dZ(2) by (rule sum_axis1_2d)
  have dQ: "dot (nd_T W) dZ = Inr Q"
    unfolding Q_def using shape_nd_T_2d [OF W] dZ(2) by (rule dot_2d)
  have g: "get_prevlayer_gradient acts dA (A_prev, W, b, Z, d) fn
           = Inr (Q, nd_map (fmul rm) P, nd_map (fmul rm) S)"
    using dZ(1) Ap m dP dS dQ
    by (simp add: get_prevlayer_gradient_def call_d_func_nd_map shape_at_def py_recip_def rm_def)
  have eW: "at2 (nd_map (fmul rm) P) r c
            = fmul rm (fsum (map (\<lambda>j. fmul (at2 dZ r j) (at2 A_prev c j)) [0..<m]))"
    if "r < u" "c < k" for r c
  proof -
    have "at2 (nd_map (fmul rm) P) r c = fmul rm (at2 P r c)"
      using that by (intro at2_nd_map [of P u k]) (simp_all add: P_def)
    also have "at2 P r c = fsum (map (\<lambda>q. fmul (at2 dZ r q) (at2 (nd_T A_prev) q c)) [0..<m])"
      unfolding P_def using that by (rule at2_mk2)
    also have "map (\<lambda>q. fmul (at2 dZ r q) (at2 (nd_T A_prev) q c)) [0..<m]
               = map (\<lambda>j. fmul (at2 dZ r j) (at2 A_prev c j)) [0..<m]"
      using that(2) by (intro map_cong refl) (simp add: at2_nd_T [OF Ap])
    finally show ?thesis .
  qed
  have eb: "at2 (nd_map (fmul rm) S) r 0 = fmul rm (fsum (map (\<lambda>j. at2 dZ r j) [0..<m]))"
    if "r < u" for r
  proof -
    have "at2 (nd_map (fmul rm) S) r 0 = fmul rm (at2 S r 0)"
      using that by (intro at2_nd_map [of S u 1]) (simp_all add: S_def)
    also have "at2 S r 0 = fsum (map (\<lambda>q. at2 dZ r q) [0..<m])"
      unfolding S_def using that by (intro at2_mk2) simp_all
    finally show ?thesis .
  qed
  have eA: "at2 Q c j = fsum (map (\<lambda>r. fmul (at2 W r c) (at2 dZ r j)) [0..<u])"
    if "c < k" "j < m" for c j
  proof -
    have "at2 Q c j = fsum (map (\<lambda>q. fmul (at2 (nd_T W) c q) (at2 dZ q j)) [0..<u])"
      unfolding Q_def using that by (rule at2_mk2)
    also have "map (\<lambda>q. fmul (at2 (nd_T W) c q) (at2 dZ q j)) [0..<u]
               = map (\<lambda>r. fmul (at2 W r c) (at2 dZ r j)) [0..<u]"
      using that(1) by (intro map_cong refl) (simp add: at2_nd_T [OF W])
    finally show ?thesis .
  qed
  have sh: "shape (nd_map (fmul rm) P) = [u, k]" "well_formed (nd_map (fmul rm) P)"
    "shape (nd_map (fmul rm) S) = [u, 1]" "well_formed (nd_map (fmul rm) S)"
    "shape Q = [k, m]" "well_formed Q"
    by (simp_all add: P_def S_def Q_def)
  show ?thesis
    using dZ(1) g dZe sh eW eb eA
    unfolding call_d_func_nd_map rm_def by blast
qed


lemma cache_collapse:
  "(cache_A_prev c, cache_W c, cache_b c, cache_Z c, cache_d_func c) = c"
  by (simp add: cache_A_prev_def cache_W_def cache_b_def cache_Z_def cache_d_func_def)

text \<open>
  Claim C5. Take the caches of a forward pass over a batch of \<open>m > 0\<close> examples through
  parameters that match \<open>units\<close>, and a gradient \<open>dA\<close> of the shape of layer \<open>i + 1\<close>. The cache
  of that layer records the sigmoid's derivative when it is the last layer and the
  rectifier's otherwise, and its \<open>A_prev\<close> has \<open>m\<close> columns. The backward step on it, whatever
  its \<^verbatim>\<open>activ_fn\<close> argument, succeeds with \<open>dZ = dA \<odot> derivative(Z)\<close> elementwise for the recorded
  derivative, \<open>dW = (1/m) dZ A_prev\<^sup>T\<close>, \<open>db = (1/m) \<Sum>\<^sub>j dZ[:, j]\<close> and \<open>dA_prev = W\<^sup>T dZ\<close>, entry by
  entry.
\<close>

theorem backward_step_of_layer:
  assumes "shapes_match units (parameters net)" and "2 \<le> length units"
    and "shape A0 = [units ! 0, m]" and "well_formed A0" and "0 < m"
    and "feedforward acts net A0 = Inr (AL, caches)" and "i < length caches"
    and "shape dA = [units ! (i + 1), m]" and "well_formed dA"
  shows "cache_d_func (caches ! i) = (if Suc i = length caches then D_sigmoid else D_relu)
    \<and> shape (cache_A_prev (caches ! i)) = [units ! i, m]
    \<and> (\<exists>dZ dA_prev dW db.
          broadcast fmul dA
            (call_d_func acts (cache_d_func (caches ! i)) (cache_Z (caches ! i))) = Inr dZ
        \<and> get_prevlayer_gradient acts dA (caches ! i) fn = Inr (dA_prev, dW, db)
        \<and> (\<forall>r<units ! (i + 1). \<forall>j<m. at2 dZ r j
              = fmul (at2 dA r j)
                  ((if Suc i = length caches then d_sigmoid acts else d_relu acts)
                     (at2 (cache_Z (caches ! i)) r j)))
        \<and> shape dW = [units ! (i + 1), units ! i] \<and> shape db = [units ! (i + 1), 1]
        \<and> shape dA_prev = [units ! i, m]
        \<and> (\<forall>r<units ! (i + 1). \<forall>c<units ! i. at2 dW r c
              = fmul (Fin (1 / real m))
                  (fsum (map (\<lambda>j. fmul (at2 dZ r j) (at2 (cache_A_prev (caches ! i)) c j))
                     [0..<m])))
        \<and> (\<forall>r<units ! (i + 1). at2 db r 0
              = fmul (Fin (1 / real m)) (fsum (map (\<lambda>j. at2 dZ r j) [0..<m])))
        \<and> (\<forall>c<units ! i. \<forall>j<m. at2 dA_prev c j
              = fsum (map (\<lambda>r. fmul (at2 (cache_W (caches ! i)) r c) (at2 dZ r j))
                   [0..<units ! (i + 1)])))"
proof -
  from feedforward_trace [OF assms(1-4), of acts] assms(6) have
    len: "length caches = length units - 1"
    and ok: "\<forall>i<length caches. layer_cache_ok acts units m (parameters net) A0 caches i
            \<and> cache_d_func (caches ! i) = (if Suc i = length caches then D_sigmoid else D_relu)"
    by auto
  define c where "c = caches ! i"
  have d: "cache_d_func c = (if Suc i = length caches then D_sigmoid else D_relu)"
    using ok assms(7) by (simp add: c_def)
  have lc: "layer_cache_ok acts units m (parameters net) A0 caches i"
    using ok assms(7) by simp
  then have Ap: "shape (cache_A_prev c) = [units ! i, m]"
    and Z: "shape (cache_Z c) = [units ! (i + 1), m]" "well_formed (cache_Z c)"
    and Wk: "map_of (parameters net) (PW (i + 1)) = Some (cache_W c)"
    unfolding layer_cache_ok_def c_def by blast+
  have "1 \<le> i + 1" "i + 1 < length units" using assms(7) len by simp_all
  from shapes_match_lookup [OF assms(1) this] Wk
  have W: "shape (cache_W c) = [units ! (i + 1), units ! i]" by auto
  have dsel: "(case cache_d_func c of D_relu \<Rightarrow> d_relu acts | D_sigmoid \<Rightarrow> d_sigmoid acts)
              = (if Suc i = length caches then d_sigmoid acts else d_relu acts)"
    by (simp add: d)
  from get_prevlayer_gradient_entries [OF Ap W Z assms(8,9,5),
      of acts "cache_d_func c" "cache_b c" fn]
  show ?thesis
    unfolding cache_collapse dsel
    using d Ap unfolding c_def by blast
qed


theorem backward_step_of_layer_witness:
  "cache_d_func (NDArray [1, 1] [Fin 1], NDArray [1, 1] [Fin 1], NDArray [1, 1] [Fin 0],
        NDArray [1, 1] [Fin 1], D_relu) = D_relu
   \<and> (\<exists>dZ dA_prev dW db.
        get_prevlayer_gradient usual_activations (NDArray [1, 1] [Fin (- 3)])
          (NDArray [1, 1] [Fin 1], NDArray [1, 1] [Fin 1], NDArray [1, 1] [Fin 0],
           NDArray [1, 1] [Fin 1], D_relu) Relu = Inr (dA_prev, dW, db)
        \<and> at2 dZ 0 0 = Fin (- 3)
        \<and> at2 dW 0 0 = fmul (Fin 1) (fsum [fmul (at2 dZ 0 0) (Fin 1)])
        \<and> at2 db 0 0 = fmul (Fin 1) (fsum [at2 dZ 0 0])
        \<and> at2 dA_prev 0 0 = fsum [fmul (Fin 1) (at2 dZ 0 0)])"
proof -
  let ?net = "\<lparr>parameters =
        [(PW 1, NDArray [1, 1] [Fin 1]), (Pb 1, NDArray [1, 1] [Fin 0]),
         (PW 2, NDArray [1, 1] [Fin 3]), (Pb 2, NDArray [1, 1] [Fin 0]),
         (PW 3, NDArray [1, 1] [Fin 2]), (Pb 3, NDArray [1, 1] [Fin (- 6)])],
      L = 4\<rparr>"
  let ?caches = "[(NDArray [1, 1] [Fin 1], NDArray [1, 1] [Fin 1], NDArray [1, 1] [Fin 0],
         NDArray [1, 1] [Fin 1], D_relu),
        (NDArray [1, 1] [Fin 1], NDArray [1, 1] [Fin 3], NDArray [1, 1] [Fin 0],
         NDArray [1, 1] [Fin 3], D_relu),
        (NDArray [1, 1] [Fin 3], NDArray [1, 1] [Fin 2], NDArray [1, 1] [Fin (- 6)],
         NDArray [1, 1] [Fin 0], D_sigmoid)]"
  have sm: "shapes_match [1, 1, 1, 1] (parameters ?net)"
    by (simp add: shapes_match_def layer_shapes_ok_def well_formed_def upt_rec)
  have ff: "feedforward usual_activations ?net (NDArray [1, 1] [Fin 1])
            = Inr (NDArray [1, 1] [Fin (1 / 2)], ?caches)"
    by (simp add: feedforward_def activate_def getitem_def eval_simps)
  have "2 \<le> length [1, 1, 1, 1 :: nat]" "shape (NDArray [1, 1] [Fin 1]) = [[1, 1, 1, 1] ! 0, 1]"
    "well_formed (NDArray [1, 1] [Fin 1])" "(0 :: nat) < 1" "0 < length ?caches"
    "shape (NDArray [1, 1] [Fin (- 3)]) = [[1, 1, 1, 1] ! (0 + 1), 1]"
    "well_formed (NDArray [1, 1] [Fin (- 3)])"
    by (simp_all add: well_formed_def)
  from backward_step_of_layer [OF sm this(1-4) ff this(5-7), of Relu]
  obtain dZ dA_prev dW db where
    "get_prevlayer_gradient usual_activations (NDArray [1, 1] [Fin (- 3)]) (?caches ! 0) Relu
       = Inr (dA_prev, dW, db)"
    "at2 dZ 0 0 = fmul (at2 (NDArray [1, 1] [Fin (- 3)]) 0 0)
        (d_relu usual_activations (at2 (cache_Z (?caches ! 0)) 0 0))"
    "at2 dW 0 0 = fmul (Fin (1 / real (1 :: nat)))
        (fsum (map (\<lambda>j. fmul (at2 dZ 0 j) (at2 (cache_A_prev (?caches ! 0)) 0 j)) [0..<1]))"
    "at2 db 0 0 = fmul (Fin (1 / real (1 :: nat))) (fsum (map (\<lambda>j. at2 dZ 0 j) [0..<1]))"
    "at2 dA_prev 0 0
       = fsum (map (\<lambda>r. fmul (at2 (cache_W (?caches ! 0)) r 0) (at2 dZ r 0)) [0..<1])"
    by auto
  then show ?thesis
    by (intro conjI exI [of _ dZ] exI [of _ dA_prev] exI [of _ dW] exI [of _ db])
       (simp_all add: usual_activations_def at2_def)
qed

subsection \<open>Determinism of the trainer\<close>

lemma outcome_bindE: "outcome (bindE r f) = bindE r (\<lambda>v. outcome (f v))"
  by (cases r) (simp_all add: outcome_def)

lemma sgd_epochs_generator_free:
  assumes "\<And>g g' X y. map_sum id fst (shuffle g X y 0) = map_sum id fst (shuffle g' X y 0)"
  shows "outcome (sgd_epochs acts shuffle m mbs eta test_data epochs g1 X y net costs)
       = outcome (sgd_epochs acts shuffle m mbs eta test_data epochs g2 X y net costs)"
proof (induction epochs arbitrary: g1 g2 X y net costs)
  case 0
  show ?case by (simp add: outcome_def)
next
  case (Suc epochs)
  have same: "map_sum id fst (shuffle g1 X y 0) = map_sum id fst (shuffle g2 X y 0)"
    by (rule assms)
  show ?case
  proof (cases "shuffle g1 X y 0")
    case (Inl e)
    with same have "shuffle g2 X y 0 = Inl e" by (cases "shuffle g2 X y 0") simp_all
    with Inl show ?thesis by simp
  next
    case (Inr r)
    obtain X' y' g1' where r: "r = ((X', y'), g1')" by (cases r) auto
    with Inr same obtain g2' where s2: "shuffle g2 X y 0 = Inr ((X', y'), g2')"
      by (cases "shuffle g2 X y 0") auto
    have "outcome (bindE (mini_batches X' y' m mbs) (\<lambda>batches.
            bindE (sgd_batches acts eta net costs (zip [0..<length batches] batches))
              (\<lambda>(net', costs').
            bindE (case test_data of None \<Rightarrow> Inr net'
                   | Some d \<Rightarrow> bindE (predict acts net' d) (\<lambda>(acc, net''). Inr net''))
              (\<lambda>net''. sgd_epochs acts shuffle m mbs eta test_data epochs ga X' y' net'' costs'))))
        = outcome (bindE (mini_batches X' y' m mbs) (\<lambda>batches.
            bindE (sgd_batches acts eta net costs (zip [0..<length batches] batches))
              (\<lambda>(net', costs').
            bindE (case test_data of None \<Rightarrow> Inr net'
                   | Some d \<Rightarrow> bindE (predict acts net' d) (\<lambda>(acc, net''). Inr net''))
              (\<lambda>net''. sgd_epochs acts shuffle m mbs eta test_data epochs gb X' y' net'' costs'))))"
      for ga gb
      by (simp only: outcome_bindE case_prod_unfold Suc.IH [of ga _ _ _ _ gb])
    then show ?thesis using Inr r s2 by simp
  qed
qed

text \<open>
  Claim C10. Two runs of \<^verbatim>\<open>SGD\<close> on the same training set, configuration and initial
  network differ at most in the state of the process's random generator when they start.
  \<^verbatim>\<open>SGD\<close> hands that state to nothing but the shuffle, and always with \<^verbatim>\<open>random_state=0\<close>;
  so if the shuffle with seed 0 does not depend on the generator state (the fixed seed
  contract), the two runs end alike: the same exception, or the same final network and
  the same recorded costs.
\<close>

theorem SGD_deterministic:
  assumes "\<And>g g' X y. map_sum id fst (shuffle g X y 0) = map_sum id fst (shuffle g' X y 0)"
  shows "outcome (SGD acts shuffle g1 net training_data num_epochs mini_batch_size eta test_data)
       = outcome (SGD acts shuffle g2 net training_data num_epochs mini_batch_size eta test_data)"
proof -
  obtain X y where d: "training_data = (X, y)" by (cases training_data)
  show ?thesis
  proof (cases "len X")
    case (Inl e)
    then show ?thesis by (simp add: SGD_def d)
  next
    case (Inr m)
    then show ?thesis
      using sgd_epochs_generator_free [of shuffle, OF assms] by (simp add: SGD_def d)
  qed
qed

theorem SGD_deterministic_witness:
  "outcome (SGD usual_activations (\<lambda>g X y s. Inr ((X, y), g + nat s + 1)) (0 :: nat)
      \<lparr>parameters = [(PW 1, NDArray [1, 1] [Fin 0]), (Pb 1, NDArray [1, 1] [Fin 0])], L = 2\<rparr>
      (NDArray [1, 1] [Fin 1], [NDArray [1, 1] [Fin 1]]) 2 1 (Fin (1 / 2)) None)
   = outcome (SGD usual_activations (\<lambda>g X y s. Inr ((X, y), g + nat s + 1)) (7 :: nat)
      \<lparr>parameters = [(PW 1, NDArray [1, 1] [Fin 0]), (Pb 1, NDArray [1, 1] [Fin 0])], L = 2\<rparr>
      (NDArray [1, 1] [Fin 1], [NDArray [1, 1] [Fin 1]]) 2 1 (Fin (1 / 2)) None)"
  using SGD_deterministic [of "\<lambda>g X y s. Inr ((X, y), g + nat s + 1)" usual_activations 0
      "\<lparr>parameters = [(PW 1, NDArray [1, 1] [Fin 0]), (Pb 1, NDArray [1, 1] [Fin 0])], L = 2\<rparr>"
      "(NDArray [1, 1] [Fin 1], [NDArray [1, 1] [Fin 1]])" 2 1 "Fin (1 / 2)" None 7]
  by simp

subsection \<open>Evaluation\<close>

lemma fsum_Fin: "fsum (map Fin rs) = Fin (sum_list rs)"
  by (induction rs) simp_all

lemma sum_list_indicator:
  "sum_list (map (\<lambda>i. (if P i then 1 else 0) / c) l) = real (length (filter P l)) / (c :: real)"
  by (induction l) (simp_all add: add_divide_distrib)

lemma nth_concat_uniform:
  "\<forall>x\<in>set xs. length x = c \<Longrightarrow> q < length xs \<Longrightarrow> j < c
   \<Longrightarrow> concat xs ! (q * c + j) = xs ! q ! j"
proof (induction xs arbitrary: q)
  case Nil
  then show ?case by simp
next
  case (Cons x xs)
  show ?case
  proof (cases q)
    case 0
    with Cons.prems show ?thesis by (simp add: nth_append)
  next
    case (Suc q')
    have "concat (x # xs) ! (q * c + j) = concat xs ! (q' * c + j)"
      using Cons.prems(1) Suc by (simp add: nth_append)
    also have "\<dots> = xs ! q' ! j"
      using Cons.prems Suc by (intro Cons.IH) simp_all
    finally show ?thesis by (simp add: Suc)
  qed
qed

lemma length_concat_uniform:
  "\<forall>x\<in>set xs. length x = c \<Longrightarrow> length (concat xs) = length xs * c"
  by (induction xs) simp_all

lemma asarray_uniform:
  assumes "y \<noteq> []" "\<forall>z\<in>set y. shape z = s"
  shows "asarray y = Inr (NDArray (length y # s) (concat (map items y)))"
proof -
  obtain y0 rest where y: "y = y0 # rest" using assms(1) by (cases y) auto
  have "list_all (\<lambda>z. shape z = shape y0) y"
    using assms(2) y by (simp add: list_all_iff)
  then show ?thesis using assms(2) y by (simp add: asarray_def)
qed

lemma map_nth_upt: "length xs = c \<Longrightarrow> map (\<lambda>j. xs ! j) [0..<c] = xs"
  using map_nth [of xs] by auto


lemma argmax_predictions:
  assumes "shape AL = [u, m]" "0 < u"
  shows "argmax_axis1 (nd_T AL)
         = Inr (NDArray [m] (map (\<lambda>i. argmax_list (map (\<lambda>j. at2 AL j i) [0..<u])) [0..<m]))"
proof -
  define T where "T = mk2 m u (\<lambda>i j. at2 AL j i)"
  have T: "nd_T AL = T" unfolding T_def using assms(1) by (rule nd_T_2d)
  have e: "items T ! (q * u + j) = at2 AL j q" if "q < m" "j < u" for q j
  proof -
    have "items T ! (q * u + j) = at2 T q j" by (simp add: at2_def T_def)
    also have "\<dots> = at2 AL j q" unfolding T_def using that by (rule at2_mk2)
    finally show ?thesis .
  qed
  have "map (\<lambda>q. argmax_list (map (\<lambda>j. items T ! ((q div 1 * u + j) * 1 + q mod 1)) [0..<u]))
          [0..<m]
        = map (\<lambda>i. argmax_list (map (\<lambda>j. at2 AL j i) [0..<u])) [0..<m]"
    by (intro map_cong refl arg_cong [of _ _ argmax_list]) (simp add: e)
  then show ?thesis
    using assms(2) by (simp add: T argmax_axis1_def) (simp add: T_def)
qed

lemma argmax_labels:
  assumes "0 < m" "length y = m" "\<forall>z\<in>set y. shape z = [c, 1] \<and> well_formed z" "0 < c"
  shows "argmax_axis1 (nd_T (NDArray [m, c, 1] (concat (map items y))))
         = Inr (NDArray [1, m] (map (\<lambda>i. argmax_list (items (y ! i))) [0..<m]))"
proof -
  define its where "its = concat (map items y)"
  define T where "T = nd_T (NDArray [m, c, 1] its)"
  have len: "\<forall>x\<in>set (map items y). length x = c"
    using assms(3) by (auto simp: well_formed_def)
  have shT: "shape T = [1, c, m]" by (simp add: T_def nd_T_def)
  have itT: "items T = map (\<lambda>p. its ! ravel [m, c, 1] (rev (unravel [1, c, m] p))) [0..<m * c]"
    by (simp add: T_def nd_T_def)
  define idx where "idx = (\<lambda>q j. (q div m * c + j) * m + q mod m)"
  have e: "items T ! idx q j = items (y ! q) ! j"
    if "q < m" "j < c" for q j
  proof -
    have "Suc j * m \<le> c * m" using that(2) by (intro mult_le_mono1) simp
    then have lt: "j * m + q < c * m" using that(1) by simp
    then have lt': "j * m + q < m * c" by (simp add: mult.commute)
    have ix: "idx q j = j * m + q" using that(1) by (simp add: idx_def)
    have "unravel [1, c, m] (j * m + q) = [0, j, q]"
      using lt that(1) by simp
    then have "ravel [m, c, 1] (rev (unravel [1, c, m] (j * m + q))) = q * c + j"
      by simp
    then have "items T ! (j * m + q) = its ! (q * c + j)"
      using lt' by (simp add: itT)
    also have "\<dots> = map items y ! q ! j"
      unfolding its_def using len that assms(2) by (intro nth_concat_uniform) simp_all
    also have "\<dots> = items (y ! q) ! j" using that(1) assms(2) by simp
    finally show ?thesis by (simp only: ix)
  qed
  have row: "map (\<lambda>j. items T ! idx q j) [0..<c] = items (y ! q)"
    if "q < m" for q
  proof -
    have "map (\<lambda>j. items T ! idx q j) [0..<c] = map (\<lambda>j. items (y ! q) ! j) [0..<c]"
      using that by (intro map_cong refl) (simp add: e)
    also have "\<dots> = items (y ! q)"
      using len that assms(2) by (intro map_nth_upt) simp
    finally show ?thesis .
  qed
  have "map (\<lambda>q. argmax_list (map (\<lambda>j. items T ! idx q j) [0..<c])) [0..<m]
        = map (\<lambda>i. argmax_list (items (y ! i))) [0..<m]"
    by (intro map_cong refl arg_cong [of _ _ argmax_list]) (simp add: row)
  moreover have "argmax_axis1 T
        = Inr (NDArray [1, m]
            (map (\<lambda>q. argmax_list (map (\<lambda>j. items T ! idx q j) [0..<c])) [0..<m]))"
    using assms(4) by (simp add: argmax_axis1_def shT idx_def)
  ultimately have "argmax_axis1 T
        = Inr (NDArray [1, m] (map (\<lambda>i. argmax_list (items (y ! i))) [0..<m]))"
    by (simp only:)
  then show ?thesis by (simp add: T_def its_def)
qed


lemma compare_row:
  "broadcast f (NDArray [m] (map p [0..<m])) (NDArray [1, m] (map t [0..<m]))
   = Inr (NDArray [1, m] (map (\<lambda>i. f (p i) (t i)) [0..<m]))"
proof -
  have "broadcast_items f [1, m] [1, m] (map p [0..<m]) (map t [0..<m])
        = map (\<lambda>(x, y). f x y) (zip (map p [0..<m]) (map t [0..<m]))"
    by (rule broadcast_items_same) simp_all
  also have "\<dots> = map (\<lambda>i. f (p i) (t i)) [0..<m]"
    by (simp add: zip_map_map zip_same_conv_map)
  finally show ?thesis
    by (simp add: broadcast_def pad_shape_def)
qed

lemma well_formed_nd_T_2d: "shape A = [r, c] \<Longrightarrow> well_formed (nd_T A)"
  by (simp add: nd_T_2d)




subsection \<open>Training over the mini-batches\<close>

lemma well_formed_nd_T [simp]: "well_formed (nd_T A)"
  by (simp add: nd_T_def well_formed_def)

lemma shape_nd_T [simp]: "shape (nd_T A) = rev (shape A)"
  by (simp add: nd_T_def)

lemma broadcast_leading_one:
  assumes "shape A = [1, a, b]" "shape B = [a, b]" "well_formed A" "well_formed B"
  shows "\<exists>C. broadcast f A B = Inr C \<and> shape C = [1, a, b] \<and> well_formed C"
proof -
  have "\<exists>C. broadcast f A B = Inr C \<and> shape C = [1, a, b]"
    using assms(1,2) by (simp add: broadcast_def pad_shape_def)
  then show ?thesis using broadcast_well_formed assms(3,4) by blast
qed

lemma broadcast_same_ok:
  assumes "shape A = s" "shape B = s" "well_formed A" "well_formed B"
  shows "\<exists>C. broadcast f A B = Inr C \<and> shape C = s \<and> well_formed C"
proof -
  have "\<exists>C. broadcast f A B = Inr C \<and> shape C = s"
    using broadcast_same [of A B f] assms by simp
  then show ?thesis using broadcast_well_formed assms(3,4) by blast
qed

lemma get_cost_labels_ok:
  assumes "shape AL = [u, k]" "well_formed AL" "shape Y = [1, u, k]" "well_formed Y"
  shows "\<exists>cost. get_cost AL Y = Inr cost"
proof -
  from broadcast_leading_one [of Y u k "nd_map flog AL" fmul] assms
  obtain t1 where t1: "broadcast fmul Y (nd_map flog AL) = Inr t1" "shape t1 = [1, u, k]"
    "well_formed t1" by auto
  from broadcast_leading_one [of "nd_map (fsub (Fin 1)) Y" u k
      "nd_map flog (nd_map (fsub (Fin 1)) AL)" fmul] assms
  obtain t2 where t2: "broadcast fmul (nd_map (fsub (Fin 1)) Y)
      (nd_map flog (nd_map (fsub (Fin 1)) AL)) = Inr t2" "shape t2 = [1, u, k]"
    "well_formed t2" by auto
  from broadcast_same_ok [OF t1(2) t2(2) t1(3) t2(3), of fadd]
  obtain t where "broadcast fadd t1 t2 = Inr t" by blast
  then show ?thesis
    using assms(3) t1(1) t2(1) by (simp add: get_cost_def len_def py_recip_def)
qed

lemma output_gradient_ok:
  assumes "shape AL = [u, k]" "well_formed AL" "prod_list (shape Y) = u * k" "well_formed Y"
  shows "\<exists>Y' q1 q2 q. reshape Y (shape AL) = Inr Y'
      \<and> broadcast fdiv Y' AL = Inr q1
      \<and> broadcast fdiv (nd_map (fsub (Fin 1)) Y') (nd_map (fsub (Fin 1)) AL) = Inr q2
      \<and> broadcast fsub q1 q2 = Inr q
      \<and> shape (nd_map fneg q) = [u, k] \<and> well_formed (nd_map fneg q)"
proof -
  define Y' where "Y' = NDArray [u, k] (items Y)"
  have r: "reshape Y (shape AL) = Inr Y'"
    using assms(1,3) by (simp add: reshape_def Y'_def)
  have Y': "shape Y' = [u, k]" "well_formed Y'"
    using assms(3,4) by (simp_all add: Y'_def well_formed_def)
  from broadcast_same_ok [OF Y'(1) assms(1) Y'(2) assms(2), of fdiv]
  obtain q1 where q1: "broadcast fdiv Y' AL = Inr q1" "shape q1 = [u, k]" "well_formed q1"
    by blast
  from broadcast_same_ok [of "nd_map (fsub (Fin 1)) Y'" "[u, k]" "nd_map (fsub (Fin 1)) AL" fdiv]
    Y' assms(1,2)
  obtain q2 where q2: "broadcast fdiv (nd_map (fsub (Fin 1)) Y') (nd_map (fsub (Fin 1)) AL)
      = Inr q2" "shape q2 = [u, k]" "well_formed q2" by auto
  from broadcast_same_ok [OF q1(2) q2(2) q1(3) q2(3), of fsub]
  obtain q where q: "broadcast fsub q1 q2 = Inr q" "shape q = [u, k]" "well_formed q" by blast
  show ?thesis using r q1(1) q2(1) q by auto
qed

lemma backward_step_shapes:
  assumes "layer_cache_ok acts units k ps A0 caches i" "shapes_match units ps"
    and "i + 1 < length units" "shape dA = [units ! (i + 1), k]" "well_formed dA" "0 < k"
  shows "\<exists>dA_prev dW db. get_prevlayer_gradient acts dA (caches ! i) fn = Inr (dA_prev, dW, db)
      \<and> shape dW = [units ! (i + 1), units ! i] \<and> well_formed dW
      \<and> shape db = [units ! (i + 1), 1] \<and> well_formed db
      \<and> shape dA_prev = [units ! i, k] \<and> well_formed dA_prev"
proof -
  define c where "c = caches ! i"
  from assms(1) have Ap: "shape (cache_A_prev c) = [units ! i, k]"
    and Z: "shape (cache_Z c) = [units ! (i + 1), k]" "well_formed (cache_Z c)"
    and Wk: "map_of ps (PW (i + 1)) = Some (cache_W c)"
    unfolding layer_cache_ok_def c_def by blast+
  have "1 \<le> i + 1" by simp
  from shapes_match_lookup [OF assms(2) this assms(3)] Wk
  have W: "shape (cache_W c) = [units ! (i + 1), units ! i]" by auto
  from get_prevlayer_gradient_entries [OF Ap W Z assms(4,5,6),
      of acts "cache_d_func c" "cache_b c" fn]
  show ?thesis unfolding cache_collapse c_def by blast
qed


lemma backpropagate_hidden_ok:
  assumes tr: "\<forall>i<nL. layer_cache_ok acts units k ps A0 caches i"
    and sm: "shapes_match units ps" and nL: "nL < length units" and k: "0 < k"
    and dA: "shape dA = [uH, k]" "well_formed dA"
    and "\<forall>l\<in>set ls. l + 1 < nL \<and> units ! (l + 1) = uH"
    and "map_of grads (GdA nL) = Some dA"
  shows "\<exists>grads'. backpropagate_hidden acts caches nL ls grads = Inr grads'
      \<and> (\<forall>j. layer_shapes_ok units grads (GdW j) (Gdb j) j
             \<longrightarrow> layer_shapes_ok units grads' (GdW j) (Gdb j) j)
      \<and> (\<forall>l\<in>set ls. layer_shapes_ok units grads' (GdW (l + 1)) (Gdb (l + 1)) (l + 1))"
  using assms(7,8)
proof (induction ls arbitrary: grads)
  case Nil
  then show ?case by simp
next
  case (Cons l ls)
  have l: "l + 1 < nL" "units ! (l + 1) = uH" using Cons.prems(1) by simp_all
  have lc: "layer_cache_ok acts units k ps A0 caches l" using tr l(1) by simp
  have lN: "l + 1 < length units" using l(1) nL by simp
  have shdA: "shape dA = [units ! (l + 1), k]" using dA(1) l(2) by simp
  from backward_step_shapes [OF lc sm lN shdA dA(2) k, of Relu]
  obtain dA_prev dW db where
    g: "get_prevlayer_gradient acts dA (caches ! l) Relu = Inr (dA_prev, dW, db)"
    and sh: "shape dW = [units ! (l + 1), units ! l]" "well_formed dW"
      "shape db = [units ! (l + 1), 1]" "well_formed db" by blast
  define grads1 where "grads1 = AList.update (Gdb (l + 1)) db
      (AList.update (GdW (l + 1)) dW (AList.update (GdA (l + 1)) dA_prev grads))"
  have step: "backpropagate_hidden acts caches nL (l # ls) grads
              = backpropagate_hidden acts caches nL ls grads1"
    using Cons.prems(2) g by (simp add: grads1_def)
  have keep: "map_of grads1 (GdA nL) = Some dA"
    using Cons.prems(2) l(1) by (simp add: grads1_def update_conv')
  have new: "layer_shapes_ok units grads1 (GdW (l + 1)) (Gdb (l + 1)) (l + 1)"
    using sh by (simp add: layer_shapes_ok_iff grads1_def update_conv')
  have pres: "layer_shapes_ok units grads1 (GdW j) (Gdb j) j"
    if "layer_shapes_ok units grads (GdW j) (Gdb j) j" for j
  proof (cases "j = l + 1")
    case True
    with new show ?thesis by simp
  next
    case False
    with that show ?thesis
      by (simp add: layer_shapes_ok_iff grads1_def update_conv')
  qed
  have "\<forall>l\<in>set ls. l + 1 < nL \<and> units ! (l + 1) = uH" using Cons.prems(1) by simp
  from Cons.IH [OF this keep] obtain grads' where
    r: "backpropagate_hidden acts caches nL ls grads1 = Inr grads'"
    and p: "\<forall>j. layer_shapes_ok units grads1 (GdW j) (Gdb j) j
             \<longrightarrow> layer_shapes_ok units grads' (GdW j) (Gdb j) j"
    and n: "\<forall>l\<in>set ls. layer_shapes_ok units grads' (GdW (l + 1)) (Gdb (l + 1)) (l + 1)"
    by blast
  show ?case using step r p n new pres by auto
qed

lemma backpropagate_ok:
  assumes tr: "\<forall>i<length caches. layer_cache_ok acts units k ps A0 caches i"
    and len: "length caches = length units - 1" and N: "2 \<le> length units"
    and sm: "shapes_match units ps" and k: "0 < k"
    and AL: "shape AL = [units ! (length units - 1), k]" "well_formed AL"
    and Y: "prod_list (shape Y) = units ! (length units - 1) * k" "well_formed Y"
    and hw: "\<forall>i. 1 \<le> i \<and> i < length units - 1 \<longrightarrow> units ! i = units ! (length units - 2)"
  shows "\<exists>grads. backpropagate acts AL Y caches = Inr grads \<and> grads_match units grads"
proof -
  define nL where "nL = length units - 1"
  have nL: "1 \<le> nL" "nL < length units" "length caches = nL" using N len by (simp_all add: nL_def)
  from output_gradient_ok [OF AL Y] obtain Y' q1 q2 q where
    o: "reshape Y (shape AL) = Inr Y'" "broadcast fdiv Y' AL = Inr q1"
      "broadcast fdiv (nd_map (fsub (Fin 1)) Y') (nd_map (fsub (Fin 1)) AL) = Inr q2"
      "broadcast fsub q1 q2 = Inr q"
    and dAL: "shape (nd_map fneg q) = [units ! (length units - 1), k]"
      "well_formed (nd_map fneg q)" by blast
  have ne: "caches \<noteq> []" using nL by auto
  then have last: "last caches = caches ! (nL - 1)" using nL(3) by (simp add: last_conv_nth)
  have lc: "layer_cache_ok acts units k ps A0 caches (nL - 1)" using tr nL by simp
  have e1: "nL - 1 + 1 = nL" using nL(1) by simp
  have lt: "nL - 1 + 1 < length units" using nL by simp
  have dAL': "shape (nd_map fneg q) = [units ! (nL - 1 + 1), k]"
    unfolding e1 using dAL(1) by (simp only: nL_def)
  from backward_step_shapes [OF lc sm lt dAL' dAL(2) k, of Sigmoid]
  obtain dA dW db where
    g: "get_prevlayer_gradient acts (nd_map fneg q) (caches ! (nL - 1)) Sigmoid
        = Inr (dA, dW, db)"
    and sh': "shape dW = [units ! (nL - 1 + 1), units ! (nL - 1)]" "well_formed dW"
      "shape db = [units ! (nL - 1 + 1), 1]" "well_formed db"
      "shape dA = [units ! (nL - 1), k]" "well_formed dA"
    by blast
  have sh: "shape dW = [units ! nL, units ! (nL - 1)]" "well_formed dW"
      "shape db = [units ! nL, 1]" "well_formed db"
      "shape dA = [units ! (nL - 1), k]" "well_formed dA"
    using sh' by (simp_all only: e1)
  define grads0 where "grads0 = [(GdA nL, dA), (GdW nL, dW), (Gdb nL, db)]"
  have ok0: "layer_shapes_ok units grads0 (GdW nL) (Gdb nL) nL"
    using sh nL(1) by (simp add: layer_shapes_ok_iff grads0_def)
  have ls: "\<forall>l\<in>set (rev [0..<nL - 1]). l + 1 < nL \<and> units ! (l + 1) = units ! (nL - 1)"
  proof
    fix l assume "l \<in> set (rev [0..<nL - 1])"
    then have l: "l + 1 < nL" by simp
    then have "1 \<le> l + 1 \<and> l + 1 < length units - 1" by (simp add: nL_def)
    with hw have "units ! (l + 1) = units ! (length units - 2)" by blast
    moreover have "length units - 2 = nL - 1" by (simp add: nL_def)
    ultimately show "l + 1 < nL \<and> units ! (l + 1) = units ! (nL - 1)" using l by simp
  qed
  have "map_of grads0 (GdA nL) = Some dA" by (simp add: grads0_def)
  from backpropagate_hidden_ok [OF tr [unfolded nL(3)] sm nL(2) k sh(5,6) ls this]
  obtain grads where
    r: "backpropagate_hidden acts caches nL (rev [0..<nL - 1]) grads0 = Inr grads"
    and p: "\<forall>j. layer_shapes_ok units grads0 (GdW j) (Gdb j) j
             \<longrightarrow> layer_shapes_ok units grads (GdW j) (Gdb j) j"
    and n: "\<forall>l\<in>set (rev [0..<nL - 1]).
             layer_shapes_ok units grads (GdW (l + 1)) (Gdb (l + 1)) (l + 1)" by blast
  have bp: "backpropagate acts AL Y caches = Inr grads"
    using o g r ne last nL(3) by (simp add: backpropagate_def Let_def grads0_def)
  have "layer_shapes_ok units grads (GdW j) (Gdb j) j" if "j \<in> set [1..<length units]" for j
  proof (cases "j = nL")
    case True
    with ok0 p show ?thesis by simp
  next
    case False
    with that have "j - 1 \<in> set (rev [0..<nL - 1])" "j - 1 + 1 = j"
      by (auto simp: nL_def)
    with n show ?thesis by force
  qed
  then have "grads_match units grads" by (simp add: grads_match_def list_all_iff)
  with bp show ?thesis by blast
qed


lemma train_step_ok:
  assumes sm: "shapes_match units (parameters net)" and N: "2 \<le> length units"
    and hw: "\<forall>i. 1 \<le> i \<and> i < length units - 1 \<longrightarrow> units ! i = units ! (length units - 2)"
    and X: "shape X_mini = [k, units ! 0]" and k: "0 < k"
    and y: "length y_mini = k"
      "\<forall>z\<in>set y_mini. shape z = [units ! (length units - 1), 1] \<and> well_formed z"
  shows "\<exists>net' costs'. sgd_batches acts eta net costs ((bn, X_mini, y_mini) # rest)
        = sgd_batches acts eta net' costs' rest \<and> shapes_match units (parameters net')"
proof -
  let ?u = "units ! (length units - 1)"
  have ynz: "y_mini \<noteq> []" using k y(1) by auto
  have "\<forall>z\<in>set y_mini. shape z = [?u, 1]" using y(2) by simp
  from asarray_uniform [OF ynz this]
  have asa: "asarray y_mini = Inr (NDArray [k, ?u, 1] (concat (map items y_mini)))"
    by (simp add: y(1))
  define Y where "Y = nd_T (NDArray [k, ?u, 1] (concat (map items y_mini)))"
  have Y: "shape Y = [1, ?u, k]" "well_formed Y" by (simp_all add: Y_def)
  have shX: "shape (nd_T X_mini) = [units ! 0, k]" "well_formed (nd_T X_mini)"
    using X by simp_all
  from feedforward_trace [OF sm N shX, of acts] obtain AL caches where
    ff: "feedforward acts net (nd_T X_mini) = Inr (AL, caches)"
    and len: "length caches = length units - 1"
    and tr: "\<forall>i<length caches. layer_cache_ok acts units k (parameters net) (nd_T X_mini) caches i"
    and AL: "shape AL = [?u, k]" "well_formed AL" by blast
  from get_cost_labels_ok [OF AL Y] obtain cost where c: "get_cost AL Y = Inr cost" by blast
  have "prod_list (shape Y) = ?u * k" by (simp add: Y(1))
  from backpropagate_ok [OF tr len N sm k AL this Y(2) hw] obtain grads where
    bp: "backpropagate acts AL Y caches = Inr grads" and gm: "grads_match units grads" by blast
  from update_params_ok [OF sm gm, of eta] obtain net' where
    up: "update_params net grads eta = Inr net'" and sm': "shapes_match units (parameters net')"
    by blast
  have "sgd_batches acts eta net costs ((bn, X_mini, y_mini) # rest)
        = sgd_batches acts eta net' (if bn mod 100 = 0 then costs @ [cost] else costs) rest"
    using asa ff c bp up by (simp add: Y_def)
  with sm' show ?thesis by blast
qed

lemma sgd_batches_ok:
  assumes N: "2 \<le> length units"
    and hw: "\<forall>i. 1 \<le> i \<and> i < length units - 1 \<longrightarrow> units ! i = units ! (length units - 2)"
    and "shapes_match units (parameters net)"
    and "\<forall>t\<in>set tb. shape (fst (snd t)) = [length (snd (snd t)), units ! 0]
            \<and> 0 < length (snd (snd t))
            \<and> (\<forall>z\<in>set (snd (snd t)). shape z = [units ! (length units - 1), 1] \<and> well_formed z)"
  shows "\<exists>net' costs'. sgd_batches acts eta net costs tb = Inr (net', costs')
        \<and> shapes_match units (parameters net')"
  using assms(3,4)
proof (induction tb arbitrary: net costs)
  case Nil
  then show ?case by simp
next
  case (Cons t tb)
  obtain bn X_mini y_mini where t: "t = (bn, X_mini, y_mini)" by (cases t) auto
  have X: "shape X_mini = [length y_mini, units ! 0]" and k: "0 < length y_mini"
    and y: "\<forall>z\<in>set y_mini. shape z = [units ! (length units - 1), 1] \<and> well_formed z"
    using Cons.prems(2) by (simp_all add: t)
  from train_step_ok [OF Cons.prems(1) N hw X k refl y, of acts eta costs bn tb]
  obtain net1 costs1 where
    s: "sgd_batches acts eta net costs ((bn, X_mini, y_mini) # tb)
        = sgd_batches acts eta net1 costs1 tb"
    and sm1: "shapes_match units (parameters net1)" by blast
  from Cons.IH [OF sm1] Cons.prems(2) show ?case unfolding t s by simp
qed




end
